theory Spec2Isabelle
  imports Main "HOL-Library.AList" "HOL-Library.Product_Lexorder" "HOL-Library.Multiset"
begin

section \<open>Data model\<close>

text \<open>
  Python exceptions that the modelled functions can raise. \<open>Exception\<close> carries the
  message of a bare \<^verbatim>\<open>raise Exception(...)\<close>.
\<close>

datatype error =
  AssertionError | KeyError | ValueError | IndexError | AttributeError | Exception string

text \<open>
  A numpy array: its shape and its elements in C (row-major) order. Labels are
  non-negative integers, held as naturals; where the source computes with them in a
  fixed-width dtype, the definitions below write the wrap-around out.
\<close>

record ndarray =
  shape :: "nat list"
  data :: "nat list"

definition wf_array :: "ndarray \<Rightarrow> bool" where
  "wf_array a = (length (data a) = prod_list (shape a))"

text \<open>\<^verbatim>\<open>a.reshape(-1)\<close>: the same elements as a one-dimensional array.\<close>

definition reshape_flat :: "ndarray \<Rightarrow> ndarray" where
  "reshape_flat a = \<lparr>shape = [length (data a)], data = data a\<rparr>"

text \<open>
  A \<^verbatim>\<open>scipy.sparse.coo_matrix\<close>: its shape and the three parallel arrays
  \<^verbatim>\<open>row\<close>, \<^verbatim>\<open>col\<close>, \<^verbatim>\<open>data\<close>.
\<close>

record coo_matrix =
  coo_shape :: "nat \<times> nat"
  coo_row :: "nat list"
  coo_col :: "nat list"
  coo_data :: "nat list"

datatype table = Dense "nat list list" | Sparse coo_matrix

section \<open>Overlap table\<close>

text \<open>
  \<^verbatim>\<open>coo_matrix.sum_duplicates()\<close>: scipy orders the entries with
  \<^verbatim>\<open>numpy.lexsort((row, col))\<close>, a stable sort whose primary key is the column and whose
  secondary key is the row, and then adds up the data of adjacent entries with equal
  coordinates.
\<close>

fun sum_adjacent :: "(nat \<times> nat \<times> nat) list \<Rightarrow> (nat \<times> nat \<times> nat) list" where
  "sum_adjacent [] = []"
| "sum_adjacent [e] = [e]"
| "sum_adjacent ((r, c, d) # (r', c', d') # es) =
     (if r = r' \<and> c = c' then sum_adjacent ((r, c, d + d') # es)
      else (r, c, d) # sum_adjacent ((r', c', d') # es))"

definition coo_entries :: "coo_matrix \<Rightarrow> (nat \<times> nat \<times> nat) list" where
  "coo_entries m = zip (coo_row m) (zip (coo_col m) (coo_data m))"

definition sum_duplicates :: "coo_matrix \<Rightarrow> coo_matrix" where
  "sum_duplicates m =
     (let es = sum_adjacent (sort_key (\<lambda>(r, c, d). (c, r)) (coo_entries m))
      in m\<lparr>coo_row := map fst es, coo_col := map (fst \<circ> snd) es,
            coo_data := map (snd \<circ> snd) es\<rparr>)"

text \<open>
  \<^verbatim>\<open>numpy.add.at(table, [vol1, vol2], 1)\<close>: one increment per position.
\<close>

definition add_at :: "nat list list \<Rightarrow> nat \<times> nat \<Rightarrow> nat list list" where
  "add_at t p = (case p of (i, j) \<Rightarrow> t[i := (t ! i)[j := t ! i ! j + 1]])"

text \<open>
  \<^verbatim>\<open>contingency_table(vol1, vol2, sparse)\<close>. Both volumes are flattened first, and the
  assertion compares the shapes of the flattened arrays. The \<^verbatim>\<open>view(numpy.int32)\<close>
  reinterprets 32-bit labels and is the identity on the label values modelled here.
  An empty volume has no maximum: \<^verbatim>\<open>vol1.max()\<close> and the shape inference of
  \<^verbatim>\<open>coo_matrix\<close> both raise \<^verbatim>\<open>ValueError\<close>.
\<close>

definition contingency_table :: "ndarray \<Rightarrow> ndarray \<Rightarrow> bool \<Rightarrow> error + table" where
  "contingency_table vol1 vol2 sparse =
     (let vol1 = reshape_flat vol1;
          vol2 = reshape_flat vol2
      in if shape vol1 \<noteq> shape vol2 then Inl AssertionError
         else if data vol1 = [] then Inl ValueError
         else if sparse then
           Inr (Sparse (sum_duplicates
             \<lparr>coo_shape = (Max (set (data vol1)) + 1, Max (set (data vol2)) + 1),
              coo_row = data vol1, coo_col = data vol2,
              coo_data = replicate (length (data vol1)) 1\<rparr>))
         else
           (let maxlabels = (Max (set (data vol1)), Max (set (data vol2)));
                table = replicate (fst maxlabels + 1) (replicate (snd maxlabels + 1) 0)
            in Inr (Dense (foldl add_at table (zip (data vol1) (data vol2))))))"

section \<open>Row-wise argmax\<close>

text \<open>
  \<^verbatim>\<open>numpy.argmax\<close> of one row: the index of the first occurrence of the maximum;
  \<^verbatim>\<open>ValueError\<close> on an empty row.
\<close>

fun argmax_scan :: "nat list \<Rightarrow> nat \<Rightarrow> nat \<times> nat \<Rightarrow> nat" where
  "argmax_scan [] i (best, besti) = besti"
| "argmax_scan (x # xs) i (best, besti) =
     argmax_scan xs (Suc i) (if x > best then (x, i) else (best, besti))"

definition np_argmax :: "nat list \<Rightarrow> error + nat" where
  "np_argmax xs = (case xs of [] \<Rightarrow> Inl ValueError | x # xs' \<Rightarrow> Inr (argmax_scan xs' 1 (x, 0)))"

fun np_argmax_axis1 :: "nat list list \<Rightarrow> error + nat list" where
  "np_argmax_axis1 [] = Inr []"
| "np_argmax_axis1 (r # rs) =
     (case np_argmax r of Inl e \<Rightarrow> Inl e
      | Inr c \<Rightarrow> (case np_argmax_axis1 rs of Inl e \<Rightarrow> Inl e | Inr cs \<Rightarrow> Inr (c # cs)))"

text \<open>
  \<^verbatim>\<open>_sparse_row_argmax(sparse_cols, sparse_rows, sparse_data, num_dense_rows)\<close>: one pass
  over the entries in their stored order; \<open>row_maxcols\<close> holds, per row, the largest
  element seen so far and its column. An entry replaces the pair of its row only when
  it is strictly larger. Indexing a row outside \<open>row_maxcols\<close> is an
  \<^verbatim>\<open>IndexError\<close>.
\<close>

fun sparse_row_argmax_loop ::
  "(nat \<times> nat \<times> nat) list \<Rightarrow> (nat \<times> nat) list \<Rightarrow> error + (nat \<times> nat) list" where
  "sparse_row_argmax_loop [] row_maxcols = Inr row_maxcols"
| "sparse_row_argmax_loop ((col, row, element) # es) row_maxcols =
     (if row \<ge> length row_maxcols then Inl IndexError
      else let prev_max = fst (row_maxcols ! row)
           in sparse_row_argmax_loop es
                (if element > prev_max then row_maxcols[row := (element, col)]
                 else row_maxcols))"

definition sparse_row_argmax ::
  "nat list \<Rightarrow> nat list \<Rightarrow> nat list \<Rightarrow> nat \<Rightarrow> error + nat list" where
  "sparse_row_argmax sparse_cols sparse_rows sparse_data num_dense_rows =
     (case sparse_row_argmax_loop (zip sparse_cols (zip sparse_rows sparse_data))
             (replicate num_dense_rows (0, 0)) of
        Inl e \<Rightarrow> Inl e
      | Inr row_maxcols \<Rightarrow> Inr (map snd row_maxcols))"

definition row_argmax :: "table \<Rightarrow> error + nat list" where
  "row_argmax t =
     (case t of
        Dense rows \<Rightarrow> np_argmax_axis1 rows
      | Sparse m \<Rightarrow> sparse_row_argmax (coo_col m) (coo_row m) (coo_data m) (fst (coo_shape m)))"

text \<open>The transpose of a table, for \<^verbatim>\<open>matrix_argmax(m, axis=0)\<close>.\<close>

definition transpose_table :: "table \<Rightarrow> table" where
  "transpose_table t =
     (case t of
        Dense rows \<Rightarrow> Dense (if rows = [] then []
                              else map (\<lambda>j. map (\<lambda>r. r ! j) rows) [0..<length (hd rows)])
      | Sparse m \<Rightarrow> Sparse (m\<lparr>coo_shape := (snd (coo_shape m), fst (coo_shape m)),
                                coo_row := coo_col m, coo_col := coo_row m\<rparr>))"

definition matrix_argmax :: "table \<Rightarrow> nat \<Rightarrow> error + nat list" where
  "matrix_argmax m axis =
     (if axis = 0 then row_argmax (transpose_table m) else row_argmax m)"

text \<open>The count a table holds at a row and a column.\<close>

definition table_count :: "table \<Rightarrow> nat \<Rightarrow> nat \<Rightarrow> nat" where
  "table_count t r c =
     (case t of
        Dense rows \<Rightarrow> rows ! r ! c
      | Sparse m \<Rightarrow> sum_list (map (\<lambda>(r', c', d). if r' = r \<and> c' = c then d else 0) (coo_entries m)))"

definition table_shape :: "table \<Rightarrow> nat \<times> nat" where
  "table_shape t =
     (case t of
        Dense rows \<Rightarrow> (length rows, if rows = [] then 0 else length (hd rows))
      | Sparse m \<Rightarrow> coo_shape m)"

section \<open>Label mappings\<close>

text \<open>
  A Python \<^verbatim>\<open>dict\<close> is an association list with distinct keys, kept in insertion
  order. Python leaves the iteration order of a \<^verbatim>\<open>dict\<close> open; no result below depends
  on it, results are compared through \<^const>\<open>map_of\<close>.
\<close>

text \<open>Sequencing of computations that may raise.\<close>

definition bind :: "error + 'a \<Rightarrow> ('a \<Rightarrow> error + 'b) \<Rightarrow> error + 'b" where
  "bind m f = (case m of Inl e \<Rightarrow> Inl e | Inr x \<Rightarrow> f x)"

text \<open>\<^verbatim>\<open>d.update(pairs)\<close> and \<^verbatim>\<open>dict(pairs)\<close>: later pairs overwrite earlier ones.\<close>

definition dict_update :: "('k \<times> 'v) list \<Rightarrow> ('k \<times> 'v) list \<Rightarrow> ('k \<times> 'v) list" where
  "dict_update d ps = foldl (\<lambda>d (k, v). AList.update k v d) d ps"

definition dict_of :: "('k \<times> 'v) list \<Rightarrow> ('k \<times> 'v) list" where
  "dict_of ps = dict_update [] ps"

definition reverse_dict :: "(nat \<times> nat) list \<Rightarrow> error + (nat \<times> nat) list" where
  "reverse_dict d =
     (let rev = dict_of (map (\<lambda>(k, v). (v, k)) d)
      in if length rev = length d then Inr rev else Inl AssertionError)"

text \<open>\<^verbatim>\<open>{k: BtoC[v] for k, v in AtoB.items()}\<close>: a missing key is a \<^verbatim>\<open>KeyError\<close>.\<close>

fun compose2 :: "(nat \<times> nat) list \<Rightarrow> (nat \<times> nat) list \<Rightarrow> error + (nat \<times> nat) list" where
  "compose2 [] BtoC = Inr []"
| "compose2 ((k, v) # AtoB) BtoC =
     (case map_of BtoC v of
        None \<Rightarrow> Inl KeyError
      | Some w \<Rightarrow> bind (compose2 AtoB BtoC) (\<lambda>AtoC. Inr ((k, w) # AtoC)))"

fun compose_chain :: "(nat \<times> nat) list \<Rightarrow> (nat \<times> nat) list list \<Rightarrow> error + (nat \<times> nat) list" where
  "compose_chain AtoB [] = Inr AtoB"
| "compose_chain AtoB (BtoC # rest) = bind (compose2 AtoB BtoC) (\<lambda>AtoC. compose_chain AtoC rest)"

definition compose_mappings :: "(nat \<times> nat) list list \<Rightarrow> error + (nat \<times> nat) list" where
  "compose_mappings mappings =
     (case mappings of [] \<Rightarrow> Inl IndexError | AtoB # rest \<Rightarrow> compose_chain AtoB rest)"

section \<open>Split-body relabelling\<close>

text \<open>
  \<^verbatim>\<open>vigra.analysis.relabelConsecutive(labels, start_label=1)\<close> (with its default
  \<^verbatim>\<open>keep_zeros=True\<close>): the label map starts as \<open>{0: 0}\<close>; scanning the volume, every
  label not yet in the map gets the next free consecutive label. It returns the
  relabelled volume, the largest new label and the map.
\<close>

definition relabel_scan :: "(nat \<times> nat) list \<Rightarrow> nat \<Rightarrow> (nat \<times> nat) list" where
  "relabel_scan labelmap old_label =
     (case map_of labelmap old_label of
        Some new_label \<Rightarrow> labelmap
      | None \<Rightarrow> labelmap @ [(old_label, length labelmap)])"

definition relabelConsecutive :: "ndarray \<Rightarrow> ndarray \<times> nat \<times> (nat \<times> nat) list" where
  "relabelConsecutive labels =
     (let labelmap = foldl relabel_scan [(0, 0)] (data labels)
      in (labels\<lparr>data := map (\<lambda>x. case map_of labelmap x of Some y \<Rightarrow> y | None \<Rightarrow> x) (data labels)\<rparr>,
          length labelmap - 1, labelmap))"

text \<open>
  \<^verbatim>\<open>vigra.analysis.applyMapping(labels, mapping, allow_incomplete_mapping)\<close>: every
  voxel is looked up in the mapping; a missing label raises \<^verbatim>\<open>KeyError\<close> unless
  incomplete mappings are allowed, in which case the label passes through unchanged.
\<close>

definition applyMapping :: "ndarray \<Rightarrow> (nat \<times> nat) list \<Rightarrow> bool \<Rightarrow> error + ndarray" where
  "applyMapping labels mapping allow_incomplete_mapping =
     (if \<not> allow_incomplete_mapping \<and> list_ex (\<lambda>x. map_of mapping x = None) (data labels)
      then Inl KeyError
      else Inr (labels\<lparr>data := map (\<lambda>x. case map_of mapping x of Some y \<Rightarrow> y | None \<Rightarrow> x)
                                    (data labels)\<rparr>))"

text \<open>
  \<^verbatim>\<open>m.tocsr().nonzero()\<close>: the coordinates of the entries whose data is not zero, in
  row-major order (the conversion to CSR is a stable ordering by row).
\<close>

definition csr_nonzero :: "coo_matrix \<Rightarrow> (nat \<times> nat) list" where
  "csr_nonzero m =
     map (\<lambda>(r, c, d). (r, c))
       (filter (\<lambda>(r, c, d). d \<noteq> 0) (sort_key (\<lambda>(r, c, d). r) (coo_entries m)))"

text \<open>\<^verbatim>\<open>numpy.unique\<close>: the distinct values in ascending order.\<close>

definition np_unique :: "nat list \<Rightarrow> nat list" where
  "np_unique xs = sort (remdups xs)"

text \<open>
  \<^verbatim>\<open>_split_body_mappings(labels_orig, labels_split)\<close>. The boolean overlap table is
  kept as the list of its true coordinates; clearing entry \<open>(i, s)\<close> removes that
  coordinate. \<open>main_split_segments\<close> has one entry per table row, so
  \<open>main_split_segments ! orig\<close> is in range for \<open>orig \<le> num_orig_segments\<close>.
\<close>

definition split_body_mappings ::
  "ndarray \<Rightarrow> ndarray \<Rightarrow> error + ((nat \<times> nat) list \<times> (nat \<times> nat) list)" where
  "split_body_mappings labels_orig labels_split =
     bind (contingency_table labels_orig labels_split True) (\<lambda>overlap_table_px.
     let num_orig_segments = fst (table_shape overlap_table_px) - 1;
         num_split_segments = snd (table_shape overlap_table_px) - 1
     in
     bind (matrix_argmax overlap_table_px 1) (\<lambda>main_split_segments.
     bind (case overlap_table_px of Sparse m \<Rightarrow> Inr (csr_nonzero m) | Dense rows \<Rightarrow> Inl AttributeError)
       (\<lambda>nonzero.
     let split_to_orig = AList.update 0 0 (dict_of (map (\<lambda>(r, c). (c, r)) nonzero));
         overlap_table_bool =
           fold (\<lambda>(i, s) es. removeAll (i, s) es) (enumerate 0 main_split_segments) nonzero;
         main_split_ids_to_nonconflicting =
           dict_of (map (\<lambda>orig. (main_split_segments ! orig, orig)) [0..<1 + num_orig_segments]);
         nonmain_split_ids = np_unique (map snd overlap_table_bool);
         nonmain_split_ids_to_nonconflicting =
           dict_of (zip nonmain_split_ids [1 + num_orig_segments..<1 + num_split_segments]);
         split_to_nonconflicting =
           dict_update main_split_ids_to_nonconflicting nonmain_split_ids_to_nonconflicting
     in
     if length split_to_nonconflicting \<noteq> length split_to_orig then Inl AssertionError
     else
     bind (reverse_dict split_to_nonconflicting) (\<lambda>nonconflicting_to_split.
     bind (compose_mappings [nonconflicting_to_split, split_to_orig]) (\<lambda>nonconflicting_to_orig.
     if length split_to_nonconflicting \<noteq> length nonconflicting_to_orig then Inl AssertionError
     else Inr (split_to_nonconflicting, nonconflicting_to_orig))))))"

text \<open>
  \<^verbatim>\<open>split_disconnected_bodies(labels_orig)\<close>. The connected-components labelling
  \<^verbatim>\<open>vigra.analysis.labelMultiArrayWithBackground\<close> is the parameter
  \<open>labelMultiArrayWithBackground\<close>. The output array \<open>labels_new\<close> is allocated
  with the shape of \<open>labels_orig\<close>, and \<^verbatim>\<open>applyMapping\<close> refuses an output of another
  shape than its input. \<open>num_splits\<close> is a Python integer; where it would be
  negative the two ranges built from it are empty, as they are for the truncated
  difference used here.
\<close>

definition split_disconnected_bodies ::
  "(ndarray \<Rightarrow> ndarray) \<Rightarrow> ndarray \<Rightarrow> error + (ndarray \<times> (nat \<times> nat) list)" where
  "split_disconnected_bodies labelMultiArrayWithBackground labels_orig =
     (case relabelConsecutive labels_orig of
        (labels_consecutive, max_consecutive_label, orig_to_consecutive) \<Rightarrow>
     let max_orig = Max (set (map fst orig_to_consecutive)) in
     bind (reverse_dict orig_to_consecutive) (\<lambda>cons_to_orig.
     let labels_split = labelMultiArrayWithBackground labels_consecutive in
     bind (split_body_mappings labels_consecutive labels_split)
       (\<lambda>(split_to_cons_with_splits, cons_with_splits_to_cons).
     let num_main_segments = max_consecutive_label;
         num_splits = length split_to_cons_with_splits - num_main_segments - 1
     in
     bind (reverse_dict orig_to_consecutive) (\<lambda>cons_to_orig'.
     let cons_with_splits_to_orig_with_splits =
           dict_update cons_to_orig'
             (dict_of (zip [1 + max_consecutive_label..<1 + max_consecutive_label + num_splits]
                           [1 + max_orig..<1 + max_orig + num_splits]))
     in
     bind (compose_mappings [split_to_cons_with_splits, cons_with_splits_to_orig_with_splits])
       (\<lambda>split_to_orig_with_splits.
     bind (if shape labels_split \<noteq> shape labels_orig then Inl ValueError
           else applyMapping labels_split split_to_orig_with_splits False) (\<lambda>labels_new.
     bind (reverse_dict cons_with_splits_to_orig_with_splits)
       (\<lambda>orig_with_splits_to_cons_with_splits.
     bind (compose_mappings
             [orig_with_splits_to_cons_with_splits, cons_with_splits_to_cons, cons_to_orig])
       (\<lambda>orig_with_splits_to_orig.
     let minimal_orig_with_splits_to_orig =
           filter (\<lambda>(k, v). k > max_orig) orig_with_splits_to_orig;
         split_labels = set (map snd minimal_orig_with_splits_to_orig);
         new_to_orig =
           foldl (\<lambda>d (k, v). if v \<in> split_labels then AList.update k v d else d)
             (dict_of minimal_orig_with_splits_to_orig) orig_with_splits_to_orig
     in Inr (labels_new, new_to_orig)))))))))"

section \<open>Distributed stitching\<close>

text \<open>
  The subvolume descriptor as \<^verbatim>\<open>stitch\<close> reads it: its index, its bounding box, its
  border width and its neighbours (index and box). The fields of the box are
  \<^verbatim>\<open>x1, y1, z1, x2, y2, z2\<close> in the source.
\<close>

record box =
  box_x1 :: int
  box_y1 :: int
  box_z1 :: int
  box_x2 :: int
  box_y2 :: int
  box_z2 :: int

record subvolume =
  sv_index :: nat
  box :: box
  border :: int
  local_regions :: "(nat \<times> box) list"

text \<open>A persisted RDD: its elements in partition order, and whether it is cached.\<close>

record 'a rdd =
  is_cached :: bool
  elems :: "'a list"

subsection \<open>Machine arithmetic of the labels\<close>

text \<open>
  The code is Python 2 and runs on numpy 1.x. Three sums of the stitching stage are
  computed by numpy and not by Python's unbounded integers.

  \<^item> \<^verbatim>\<open>offset += max_id\<close> starts from \<^verbatim>\<open>numpy.uint64(0)\<close>. The maximal ids are taken
    to be numpy unsigned scalars, as \<^verbatim>\<open>max()\<close> of a label volume gives them, so the
    running offset stays a \<^verbatim>\<open>numpy.uint64\<close> and wraps modulo \<open>2 ^ 64\<close>. (With Python
    \<^verbatim>\<open>int\<close> ids numpy 1.x would accumulate in \<^verbatim>\<open>float64\<close>; the sums agree below
    \<open>2 ^ 53\<close>.)

  \<^item> \<^verbatim>\<open>merger[0] + offset1\<close> adds a Python \<^verbatim>\<open>int\<close> and a \<^verbatim>\<open>numpy.uint64\<close>. numpy 1.x
    has no common integer type for the two and converts both to \<^verbatim>\<open>float64\<close>, so the
    sum is exact below \<open>2 ^ 53\<close> and rounded to 53 significant bits (to nearest, ties
    to even) above.

  \<^item> \<^verbatim>\<open>labels + offset\<close> adds a \<^verbatim>\<open>numpy.uint64\<close> scalar to the label volume of a
    block, a \<^verbatim>\<open>numpy.uint32\<close> array (the dtype in which the segmentation plugins store
    their labels). numpy 1.x picks the dtype of the result from the dtype of the
    array and the value of the scalar: an offset that fits in 32 bits leaves the sum
    in \<^verbatim>\<open>uint32\<close>, where it wraps modulo \<open>2 ^ 32\<close>; a larger offset makes it
    \<^verbatim>\<open>uint64\<close>. The conversion \<^verbatim>\<open>astype(numpy.uint64)\<close> comes after the sum.
\<close>

definition uint64_add :: "nat \<Rightarrow> nat \<Rightarrow> nat" where
  "uint64_add a b = (a + b) mod 2 ^ 64"

fun bit_length :: "nat \<Rightarrow> nat" where
  "bit_length n = (if n = 0 then 0 else Suc (bit_length (n div 2)))"

declare bit_length.simps [simp del]

definition float64 :: "nat \<Rightarrow> nat" where
  "float64 n =
     (if n < 2 ^ 53 then n
      else let e = bit_length n - 53;
               q = n div 2 ^ e;
               r = n mod 2 ^ e
           in if 2 * r < 2 ^ e \<or> (2 * r = 2 ^ e \<and> even q) then q * 2 ^ e
              else (q + 1) * 2 ^ e)"

definition float64_add :: "nat \<Rightarrow> nat \<Rightarrow> nat" where
  "float64_add a b = float64 (float64 a + float64 b)"

definition uint32_array_add :: "nat \<Rightarrow> nat \<Rightarrow> nat" where
  "uint32_array_add label offset =
     (if offset < 2 ^ 32 then (label + offset) mod 2 ^ 32 else (label + offset) mod 2 ^ 64)"

subsection \<open>Offset assignment\<close>

fun offsets_loop ::
  "(subvolume \<times> nat) list \<Rightarrow> (nat \<times> nat) list \<Rightarrow> nat \<Rightarrow> (nat \<times> nat) list" where
  "offsets_loop [] offsets offset = offsets"
| "offsets_loop ((subvolume, max_id) # rest) offsets offset =
     offsets_loop rest (AList.update (sv_index subvolume) offset offsets)
       (uint64_add offset max_id)"

definition assign_offsets :: "subvolume list \<Rightarrow> nat list \<Rightarrow> (nat \<times> nat) list" where
  "assign_offsets subvolumes max_ids = offsets_loop (zip subvolumes max_ids) [] 0"

subsection \<open>Boundary extraction\<close>

definition intersects :: "int \<Rightarrow> int \<Rightarrow> int \<Rightarrow> int \<Rightarrow> error + (int \<times> int \<times> int \<times> int)" where
  "intersects pt1 pt2 pt1_2 pt2_2 =
     (if \<not> pt1 \<le> pt2 then Inl AssertionError
      else if \<not> pt1_2 \<le> pt2_2 then Inl AssertionError
      else let val1 = max pt1 pt1_2;
               val2 = min pt2 pt2_2;
               size = val2 - val1;
               npt1 = val1 - pt1;
               npt1_2 = val1 - pt1_2
           in Inr (npt1, npt1 + size, npt1_2, npt1_2 + size))"

text \<open>
  A slice bound of Python on an axis of length \<open>n\<close>: a negative bound counts from the
  end, and every bound is clipped to the axis.
\<close>

definition slice_bound :: "nat \<Rightarrow> int \<Rightarrow> nat" where
  "slice_bound n i = (if i < 0 then nat (max 0 (i + int n)) else min n (nat i))"

definition slice_range :: "nat \<Rightarrow> int \<Rightarrow> int \<Rightarrow> nat list" where
  "slice_range n start stop = [slice_bound n start..<slice_bound n stop]"

text \<open>\<^verbatim>\<open>a[z1:z2, y1:y2, x1:x2]\<close> on a three-dimensional array.\<close>

definition crop3 :: "ndarray \<Rightarrow> int \<times> int \<Rightarrow> int \<times> int \<Rightarrow> int \<times> int \<Rightarrow> error + ndarray" where
  "crop3 a zr yr xr =
     (case shape a of
        [Z, Y, X] \<Rightarrow>
          let zs = slice_range Z (fst zr) (snd zr);
              ys = slice_range Y (fst yr) (snd yr);
              xs = slice_range X (fst xr) (snd xr)
          in Inr \<lparr>shape = [length zs, length ys, length xs],
                  data = concat (map (\<lambda>z. concat (map (\<lambda>y.
                           map (\<lambda>x. data a ! ((z * Y + y) * X + x)) xs) ys)) zs)\<rparr>
      | _ \<Rightarrow> Inl IndexError)"

fun extract_partners ::
  "subvolume \<Rightarrow> ndarray \<Rightarrow> (nat \<times> box) list \<Rightarrow>
   error + ((nat \<times> nat) \<times> subvolume \<times> ndarray) list" where
  "extract_partners subvolume labels [] = Inr []"
| "extract_partners subvolume labels (partner # partners) =
     (let key1 = sv_index subvolume;
          key2 = fst partner;
          box2 = snd partner;
          newkey = (if key2 < key1 then (key2, key1) else (key1, key2))
      in
      bind (intersects (box_x1 (box subvolume) - border subvolume)
                       (box_x2 (box subvolume) + border subvolume)
                       (box_x1 box2 - border subvolume)
                       (box_x2 box2 + border subvolume)) (\<lambda>(offx1, offx2, offx1_2, offx2_2).
      bind (intersects (box_y1 (box subvolume) - border subvolume)
                       (box_y2 (box subvolume) + border subvolume)
                       (box_y1 box2 - border subvolume)
                       (box_y2 box2 + border subvolume)) (\<lambda>(offy1, offy2, offy1_2, offy2_2).
      bind (intersects (box_z1 (box subvolume) - border subvolume)
                       (box_z2 (box subvolume) + border subvolume)
                       (box_z1 box2 - border subvolume)
                       (box_z2 box2 + border subvolume)) (\<lambda>(offz1, offz2, offz1_2, offz2_2).
      bind (crop3 labels (offz1, offz2) (offy1, offy2) (offx1, offx2)) (\<lambda>labels_cropped.
      bind (extract_partners subvolume labels partners) (\<lambda>boundary_array.
      Inr ((newkey, (subvolume, labels_cropped)) # boundary_array)))))))"

definition extract_boundaries ::
  "subvolume \<times> ndarray \<Rightarrow> error + ((nat \<times> nat) \<times> subvolume \<times> ndarray) list" where
  "extract_boundaries key_labels =
     (case key_labels of (subvolume, labels) \<Rightarrow>
        extract_partners subvolume labels (local_regions subvolume))"

subsection \<open>The primitives of the execution substrate\<close>

text \<open>
  \<^verbatim>\<open>rdd.map(f)\<close> and \<^verbatim>\<open>rdd.flatMap(f)\<close> followed by an action: the first task that raises
  fails the whole job.
\<close>

fun map_tasks :: "('a \<Rightarrow> error + 'b) \<Rightarrow> 'a list \<Rightarrow> error + 'b list" where
  "map_tasks f [] = Inr []"
| "map_tasks f (x # xs) = bind (f x) (\<lambda>y. bind (map_tasks f xs) (\<lambda>ys. Inr (y # ys)))"

definition flatMap_tasks :: "('a \<Rightarrow> error + 'b list) \<Rightarrow> 'a list \<Rightarrow> error + 'b list" where
  "flatMap_tasks f xs = bind (map_tasks f xs) (\<lambda>yss. Inr (concat yss))"

text \<open>
  \<^verbatim>\<open>groupByKey\<close> and \<^verbatim>\<open>reduceByKey\<close>. The substrate fixes neither the order of the
  keys nor the order of the values of a key; the model keeps both in order of
  arrival.
\<close>

definition group_add :: "('k \<times> 'v list) list \<Rightarrow> 'k \<times> 'v \<Rightarrow> ('k \<times> 'v list) list" where
  "group_add groups kv =
     (case kv of (k, v) \<Rightarrow>
        (case map_of groups k of
           None \<Rightarrow> groups @ [(k, [v])]
         | Some vs \<Rightarrow> AList.update k (vs @ [v]) groups))"

definition groupByKey :: "('k \<times> 'v) list \<Rightarrow> ('k \<times> 'v list) list" where
  "groupByKey kvs = foldl group_add [] kvs"

definition reduce_mappings :: "'a list \<Rightarrow> 'a list \<Rightarrow> 'a list" where
  "reduce_mappings b1 b2 = b1 @ b2"

definition reduce_add :: "('v \<Rightarrow> 'v \<Rightarrow> 'v) \<Rightarrow> ('k \<times> 'v) list \<Rightarrow> 'k \<times> 'v \<Rightarrow> ('k \<times> 'v) list" where
  "reduce_add f acc kv =
     (case kv of (k, v) \<Rightarrow>
        (case map_of acc k of
           None \<Rightarrow> acc @ [(k, v)]
         | Some u \<Rightarrow> AList.update k (f u v) acc))"

definition reduceByKey :: "('v \<Rightarrow> 'v \<Rightarrow> 'v) \<Rightarrow> ('k \<times> 'v) list \<Rightarrow> ('k \<times> 'v) list" where
  "reduceByKey f kvs = foldl (reduce_add f) [] kvs"

subsection \<open>Pairwise merge computation\<close>

text \<open>
  The counting loop of \<^verbatim>\<open>stitcher\<close> over the voxel pairs of the two boundaries:
  \<open>body2body\<close> maps a label of the second boundary to the dictionary of the labels of
  the first boundary it overlaps, with the number of shared voxels.
\<close>

fun count_overlaps ::
  "(nat \<times> nat) list \<Rightarrow> (nat \<times> (nat \<times> nat) list) list \<Rightarrow>
   error + (nat \<times> (nat \<times> nat) list) list" where
  "count_overlaps [] body2body = Inr body2body"
| "count_overlaps ((body1, body2) # rest) body2body =
     (if body2 = 0 \<or> body1 = 0 then count_overlaps rest body2body
      else
        (case map_of body2body body2 of
           None \<Rightarrow> Inl KeyError
         | Some bodydict \<Rightarrow>
             let val = (case map_of bodydict body1 of None \<Rightarrow> 0 | Some n \<Rightarrow> n)
             in count_overlaps rest
                  (AList.update body2 (AList.update body1 (val + 1) bodydict) body2body)))"

text \<open>
  \<^verbatim>\<open>stitcher(key_boundary)\<close>. The method \<^verbatim>\<open>Subvolume.touches\<close> is not part of the
  sources at hand and is the parameter \<open>touches\<close>. The shape of a boundary is
  unpacked into three extents, which fails on an array that is not three-dimensional.
  The offsets are added to the \<^verbatim>\<open>int\<close> labels of the merge list in \<^verbatim>\<open>float64\<close>.
\<close>

definition stitcher ::
  "(int \<Rightarrow> int \<Rightarrow> int \<Rightarrow> int \<Rightarrow> bool) \<Rightarrow> (nat \<times> nat) list \<Rightarrow>
   (nat \<times> nat) \<times> (subvolume \<times> ndarray) list \<Rightarrow> error + (nat \<times> (nat \<times> nat) list)" where
  "stitcher touches subvolume_offsets key_boundary =
     (case key_boundary of (key, boundary_list) \<Rightarrow>
      if length boundary_list \<noteq> 2
      then Inl (Exception ''Expects exactly two subvolumes per boundary'')
      else
        let swap = sv_index (fst (boundary_list ! 0)) > sv_index (fst (boundary_list ! 1));
            subvolume1 = fst (boundary_list ! (if swap then 1 else 0));
            boundary1 = snd (boundary_list ! (if swap then 1 else 0));
            subvolume2 = fst (boundary_list ! (if swap then 0 else 1));
            boundary2 = snd (boundary_list ! (if swap then 0 else 1))
        in
        if shape boundary1 \<noteq> shape boundary2
        then Inl (Exception ''Extracted boundaries are different shapes'')
        else
          (case shape boundary1 of
             [z2, y2, x2] \<Rightarrow>
               let tx = touches (box_x1 (box subvolume1)) (box_x2 (box subvolume1))
                                (box_x1 (box subvolume2)) (box_x2 (box subvolume2));
                   x1 = (if tx then x2 div 2 else 0);
                   x2 = (if tx then x1 + 1 else x2);
                   ty = touches (box_y1 (box subvolume1)) (box_y2 (box subvolume1))
                                (box_y1 (box subvolume2)) (box_y2 (box subvolume2));
                   y1 = (if ty then y2 div 2 else 0);
                   y2 = (if ty then y1 + 1 else y2);
                   tz = touches (box_z1 (box subvolume1)) (box_z2 (box subvolume1))
                                (box_z1 (box subvolume2)) (box_z2 (box subvolume2));
                   z1 = (if tz then z2 div 2 else 0);
                   z2 = (if tz then z1 + 1 else z2)
               in
               bind (crop3 boundary2 (int z1, int z2) (int y1, int y2) (int x1, int x2)) (\<lambda>slab.
               let eligible_bodies = set (np_unique (data slab));
                   label2_bodies = np_unique (data boundary2);
                   body2body = map (\<lambda>body. (body, [])) (filter (\<lambda>body. body \<noteq> 0) label2_bodies)
               in
               bind (count_overlaps (zip (data boundary1) (data boundary2)) body2body) (\<lambda>body2body.
               let merge_list =
                     concat (map (\<lambda>(body2, bodydict).
                       if body2 \<in> eligible_bodies
                       then map (\<lambda>(body1, val). (body1, body2))
                              (filter (\<lambda>(body1, val). val > 0) bodydict)
                       else []) body2body)
               in
               bind (case map_of subvolume_offsets (sv_index subvolume1) of
                       None \<Rightarrow> Inl KeyError | Some v \<Rightarrow> Inr v) (\<lambda>offset1.
               bind (case map_of subvolume_offsets (sv_index subvolume2) of
                       None \<Rightarrow> Inl KeyError | Some v \<Rightarrow> Inr v) (\<lambda>offset2.
               Inr (sv_index subvolume1,
                    map (\<lambda>merger. (float64_add (fst merger) offset1,
                                  float64_add (snd merger) offset2)) merge_list)))))
           | _ \<Rightarrow> Inl ValueError))"

subsection \<open>Global reconciliation\<close>

text \<open>
  The loop over \<open>merge_list\<close> in \<^verbatim>\<open>stitch\<close>. \<open>body1body2\<close> maps a label to its
  current representative, \<open>body2body1\<close> maps a representative to the set of labels
  known to map to it (a duplicate-free list).
\<close>

definition resolve :: "(nat \<times> nat) list \<Rightarrow> nat \<Rightarrow> nat" where
  "resolve body1body2 b = (case map_of body1body2 b of Some r \<Rightarrow> r | None \<Rightarrow> b)"

definition set_add :: "(nat \<times> nat list) list \<Rightarrow> nat \<Rightarrow> nat \<Rightarrow> (nat \<times> nat list) list" where
  "set_add body2body1 k x =
     (case map_of body2body1 k of
        None \<Rightarrow> body2body1
      | Some tbodies \<Rightarrow> AList.update k (List.insert x tbodies) body2body1)"

definition merge_step ::
  "(nat \<times> nat) list \<times> (nat \<times> nat list) list \<Rightarrow> nat \<times> nat \<Rightarrow>
   (nat \<times> nat) list \<times> (nat \<times> nat list) list" where
  "merge_step state merger =
     (case state of (body1body2, body2body1) \<Rightarrow>
        let body1 = resolve body1body2 (fst merger);
            body2 = resolve body1body2 (snd merger);
            body2body1 = (case map_of body2body1 body2 of
                            None \<Rightarrow> AList.update body2 [] body2body1
                          | Some tbodies \<Rightarrow> body2body1);
            body2body1 = set_add body2body1 body2 body1;
            body1body2 = AList.update body1 body2 body1body2
        in
        (case map_of body2body1 body1 of
           None \<Rightarrow> (body1body2, body2body1)
         | Some tbodies \<Rightarrow>
             fold (\<lambda>tbody (body1body2, body2body1).
                     (AList.update tbody body2 body1body2, set_add body2body1 body2 tbody))
               tbodies (body1body2, body2body1)))"

definition reconcile :: "(nat \<times> nat) list \<Rightarrow> (nat \<times> nat) list" where
  "reconcile merge_list = fst (foldl merge_step ([], []) merge_list)"

text \<open>Applying an equivalence map to a label: a label without an entry is unchanged.\<close>

definition apply_map :: "(nat \<times> nat) list \<Rightarrow> nat \<Rightarrow> nat" where
  "apply_map m x = (case map_of m x of Some y \<Rightarrow> y | None \<Rightarrow> x)"

subsection \<open>Relabel application\<close>

text \<open>
  \<^verbatim>\<open>relabel(key_label_mapping)\<close>. The offset is added to the \<^verbatim>\<open>uint32\<close> label volume
  before the volume is widened to \<^verbatim>\<open>uint64\<close>; the voxels equal to the offset are then
  reset to 0, and the merge list is applied to the labels that occur in the volume.
\<close>

definition relabel ::
  "(nat \<times> nat) list \<Rightarrow> (nat \<times> nat) list \<Rightarrow> subvolume \<times> ndarray \<Rightarrow>
   error + (subvolume \<times> ndarray)" where
  "relabel subvolume_offsets master_merge_list key_label_mapping =
     (case key_label_mapping of (subvolume, labels) \<Rightarrow>
      bind (case map_of subvolume_offsets (sv_index subvolume) of
              None \<Rightarrow> Inl KeyError | Some v \<Rightarrow> Inr v) (\<lambda>offset.
      let labels = labels\<lparr>data := map (\<lambda>l. uint32_array_add l offset) (data labels)\<rparr>;
          labels = labels\<lparr>data := map (\<lambda>l. if l = offset then 0 else l) (data labels)\<rparr>;
          mapping_col = np_unique (data labels);
          label_mappings = dict_of (zip mapping_col mapping_col);
          label_mappings =
            foldl (\<lambda>label_mappings mapping.
                     if fst mapping \<in> fst ` set label_mappings
                     then AList.update (fst mapping) (snd mapping) label_mappings
                     else label_mappings)
              label_mappings master_merge_list
      in
      bind (applyMapping labels label_mappings True) (\<lambda>new_labels.
      Inr (subvolume, new_labels))))"

subsection \<open>The whole stitch\<close>

text \<open>
  The stages of \<^verbatim>\<open>stitch(sc, label_chunks)\<close>: the grouped boundaries, the collected
  merge list, and the whole function. An exception in any task fails the job that
  \<^verbatim>\<open>subvolume_mappings.collect()\<close> runs, and with it the call.
\<close>

definition grouped_boundaries ::
  "(subvolume \<times> ndarray \<times> nat) rdd \<Rightarrow>
   error + ((nat \<times> nat) \<times> (subvolume \<times> ndarray) list) list" where
  "grouped_boundaries label_chunks =
     (let subvolumes = map fst (elems label_chunks);
          label_vols = map (fst \<circ> snd) (elems label_chunks)
      in bind (flatMap_tasks extract_boundaries (zip subvolumes label_vols))
           (\<lambda>mapped_boundaries. Inr (groupByKey mapped_boundaries)))"

definition collect_merge_list ::
  "(int \<Rightarrow> int \<Rightarrow> int \<Rightarrow> int \<Rightarrow> bool) \<Rightarrow> (subvolume \<times> ndarray \<times> nat) rdd \<Rightarrow>
   error + (nat \<times> nat) list" where
  "collect_merge_list touches label_chunks =
     (if \<not> is_cached label_chunks then Inl AssertionError
      else
        let subvolumes = map fst (elems label_chunks);
            max_ids = map (snd \<circ> snd) (elems label_chunks);
            subvolume_offsets = assign_offsets subvolumes max_ids
        in
        bind (grouped_boundaries label_chunks) (\<lambda>grouped_boundaries.
        bind (map_tasks (stitcher touches subvolume_offsets) grouped_boundaries) (\<lambda>mapped.
        let all_mappings = reduceByKey reduce_mappings mapped
        in Inr (concat (map snd all_mappings)))))"

definition stitch ::
  "(int \<Rightarrow> int \<Rightarrow> int \<Rightarrow> int \<Rightarrow> bool) \<Rightarrow> (subvolume \<times> ndarray \<times> nat) rdd \<Rightarrow>
   error + (subvolume \<times> ndarray) list" where
  "stitch touches label_chunks =
     bind (collect_merge_list touches label_chunks) (\<lambda>merge_list.
     let subvolumes = map fst (elems label_chunks);
         max_ids = map (snd \<circ> snd) (elems label_chunks);
         subvolume_offsets = assign_offsets subvolumes max_ids;
         label_vols = map (fst \<circ> snd) (elems label_chunks);
         body2body = reconcile merge_list
     in map_tasks (relabel subvolume_offsets body2body) (zip subvolumes label_vols))"

section \<open>A two-block scenario\<close>

text \<open>
  Modelled from the spec: \<^verbatim>\<open>Subvolume.touches\<close> is not among the sources at hand; the
  specification (section 4.4, stage 3) determines the axis that separates two subvolumes
  "by testing which axis ranges touch". Two ranges touch when one of them ends where
  the other begins.
\<close>

definition touches :: "int \<Rightarrow> int \<Rightarrow> int \<Rightarrow> int \<Rightarrow> bool" where
  "touches p1 p2 p1_2 p2_2 = (p1 = p2_2 \<or> p2 = p1_2)"

text \<open>
  Two subvolumes that share the face \<open>x = 3\<close>. With a border of one voxel each label
  volume is a block of 4 x 4 x 4 voxels; the blocks overlap in two voxel layers along
  the x axis. Block A carries label 1 on its two low layers and label 2 on the two
  layers it shares with block B; block B carries label 1 everywhere. The maximal ids
  are 3 and 1, which gives the offsets 0 and 3.
\<close>

definition boxA :: box where
  "boxA = \<lparr>box_x1 = 1, box_y1 = 1, box_z1 = 1, box_x2 = 3, box_y2 = 3, box_z2 = 3\<rparr>"

definition boxB :: box where
  "boxB = \<lparr>box_x1 = 3, box_y1 = 1, box_z1 = 1, box_x2 = 5, box_y2 = 3, box_z2 = 3\<rparr>"

definition subvolumeA :: subvolume where
  "subvolumeA = \<lparr>sv_index = 0, box = boxA, border = 1, local_regions = [(1, boxB)]\<rparr>"

definition subvolumeB :: subvolume where
  "subvolumeB = \<lparr>sv_index = 1, box = boxB, border = 1, local_regions = [(0, boxA)]\<rparr>"

definition labelsA :: ndarray where
  "labelsA = \<lparr>shape = [4, 4, 4], data = concat (replicate 16 [1, 1, 2, 2])\<rparr>"

definition labelsB :: ndarray where
  "labelsB = \<lparr>shape = [4, 4, 4], data = replicate 64 1\<rparr>"

definition two_blocks :: "(subvolume \<times> ndarray \<times> nat) rdd" where
  "two_blocks = \<lparr>is_cached = True, elems = [(subvolumeA, labelsA, 3), (subvolumeB, labelsB, 1)]\<rparr>"

text \<open>
  The same two blocks, with block A naming its neighbour B twice: the boundary key
  \<open>(0, 1)\<close> then collects three contributors.
\<close>

definition three_contributors :: "(subvolume \<times> ndarray \<times> nat) rdd" where
  "three_contributors =
     \<lparr>is_cached = True,
      elems = [(subvolumeA\<lparr>local_regions := [(1, boxB), (1, boxB)]\<rparr>, labelsA, 3),
               (subvolumeB, labelsB, 1)]\<rparr>"

text \<open>
  A boundary group is malformed when it does not have exactly two contributors, or
  when the boundaries of its two contributors differ in shape.
\<close>

definition malformed_group :: "(nat \<times> nat) \<times> (subvolume \<times> ndarray) list \<Rightarrow> bool" where
  "malformed_group g =
     (length (snd g) \<noteq> 2 \<or> shape (snd (snd g ! 0)) \<noteq> shape (snd (snd g ! 1)))"


text \<open>
  Two blocks that have no neighbour, so that no boundary is extracted and no merge edge
  arises. The label volumes are \<^verbatim>\<open>uint32\<close> arrays of shape 1 x 1 x 2: block P carries
  the labels 1 and 4294967295 (the largest \<^verbatim>\<open>uint32\<close>), block Q the labels 2 and 1; the
  maximal ids are 4294967295 and 2.
\<close>

definition subvolumeP :: subvolume where
  "subvolumeP = \<lparr>sv_index = 0,
     box = \<lparr>box_x1 = 0, box_y1 = 0, box_z1 = 0, box_x2 = 2, box_y2 = 1, box_z2 = 1\<rparr>,
     border = 0, local_regions = []\<rparr>"

definition subvolumeQ :: subvolume where
  "subvolumeQ = \<lparr>sv_index = 1,
     box = \<lparr>box_x1 = 10, box_y1 = 0, box_z1 = 0, box_x2 = 12, box_y2 = 1, box_z2 = 1\<rparr>,
     border = 0, local_regions = []\<rparr>"

definition labelsP :: ndarray where
  "labelsP = \<lparr>shape = [1, 1, 2], data = [1, 4294967295]\<rparr>"

definition labelsQ :: ndarray where
  "labelsQ = \<lparr>shape = [1, 1, 2], data = [2, 1]\<rparr>"

definition far_blocks :: "(subvolume \<times> ndarray \<times> nat) rdd" where
  "far_blocks =
     \<lparr>is_cached = True,
      elems = [(subvolumeP, labelsP, 4294967295), (subvolumeQ, labelsQ, 2)]\<rparr>"

section \<open>Volumes with disconnected bodies\<close>

text \<open>
  A line of eight voxels in which label 5 appears in three stretches, separated by a
  background voxel and by a stretch of label 9, and the labelling of its connected
  pieces, numbered in scan order. The labelling function of the scenario returns this
  labelling.
\<close>

definition line_volume :: ndarray where
  "line_volume = \<lparr>shape = [1, 1, 8], data = [5, 5, 5, 0, 5, 9, 9, 5]\<rparr>"

definition line_pieces :: "ndarray \<Rightarrow> ndarray" where
  "line_pieces labels = \<lparr>shape = [1, 1, 8], data = [1, 1, 1, 0, 2, 3, 3, 4]\<rparr>"

text \<open>
  A line of 131 voxels: 100 voxels of label 5, one voxel of label 9, and 30 more voxels
  of label 5. Label 5 falls into a piece of 100 and a piece of 30 voxels; the largest
  label is 9.
\<close>

definition long_line :: ndarray where
  "long_line = \<lparr>shape = [1, 1, 131], data = replicate 100 5 @ [9] @ replicate 30 5\<rparr>"

definition long_line_pieces :: "ndarray \<Rightarrow> ndarray" where
  "long_line_pieces labels =
     \<lparr>shape = [1, 1, 131], data = replicate 100 1 @ [2] @ replicate 30 3\<rparr>"
section \<open>Notions used in the proofs\<close>

text \<open>
  The representative a partial map gives a label, the member set the reconciliation
  keeps for a representative, and the invariant of the reconciliation loop: every
  value of the map is a label the map leaves alone; a label that maps to \<open>r\<close> is a
  recorded member of \<open>r\<close>; and the recorded members of a label that the map leaves
  alone all map to it.
\<close>

definition rep_of :: "(nat \<Rightarrow> nat option) \<Rightarrow> nat \<Rightarrow> nat" where
  "rep_of m x = (case m x of Some r \<Rightarrow> r | None \<Rightarrow> x)"

definition members_of :: "(nat \<times> nat list) list \<Rightarrow> nat \<Rightarrow> nat set" where
  "members_of body2body1 r = (case map_of body2body1 r of Some l \<Rightarrow> set l | None \<Rightarrow> {})"

definition merge_inv :: "(nat \<Rightarrow> nat option) \<Rightarrow> (nat \<Rightarrow> nat set) \<Rightarrow> bool" where
  "merge_inv m S =
     ((\<forall>k r. m k = Some r \<longrightarrow> (m r = None \<or> m r = Some r) \<and> k \<in> S r)
      \<and> (\<forall>r x. x \<in> S r \<longrightarrow> (m r = None \<or> m r = Some r) \<longrightarrow> m x = Some r))"

text \<open>The labels that occur in a merge list, and connection by merge edges.\<close>

definition endpoints :: "(nat \<times> nat) list \<Rightarrow> nat set" where
  "endpoints merge_list = fst ` set merge_list \<union> snd ` set merge_list"

definition connected :: "(nat \<times> nat) list \<Rightarrow> (nat \<times> nat) set" where
  "connected merge_list = (set merge_list \<union> (set merge_list)\<inverse>)\<^sup>*"

text \<open>
  \<open>c\<close> is the lowest index below \<open>n\<close> at which \<open>f\<close> takes its maximum; the sum of the
  data a list of sparse entries holds at a coordinate; and the key by which
  \<^verbatim>\<open>sum_duplicates\<close> orders the entries.
\<close>

definition is_argmax :: "(nat \<Rightarrow> nat) \<Rightarrow> nat \<Rightarrow> nat \<Rightarrow> bool" where
  "is_argmax f n c = (c < n \<and> (\<forall>j<n. f j \<le> f c) \<and> (\<forall>j<c. f j < f c))"

definition entry_sum :: "(nat \<times> nat \<times> nat) list \<Rightarrow> nat \<Rightarrow> nat \<Rightarrow> nat" where
  "entry_sum es r c = sum_list (map (\<lambda>(r', c', d). if r' = r \<and> c' = c then d else 0) es)"

definition entry_key :: "nat \<times> nat \<times> nat \<Rightarrow> nat \<times> nat" where
  "entry_key e = (case e of (r, c, d) \<Rightarrow> (c, r))"

text \<open>
  What \<^verbatim>\<open>_sparse_row_argmax\<close> holds for row \<open>r\<close> after the entries \<open>P\<close>: the pair
  \<open>(m, c)\<close> of the largest element of the row and the lowest column that holds it, or
  \<open>(0, 0)\<close> when the row has no positive element.
\<close>

definition row_best :: "(nat \<times> nat \<times> nat) list \<Rightarrow> nat \<Rightarrow> nat \<times> nat \<Rightarrow> bool" where
  "row_best P r mc =
     (case mc of (m, c) \<Rightarrow>
        (\<forall>c' d'. (r, c', d') \<in> set P \<longrightarrow> d' \<le> m)
        \<and> (if m = 0 then c = 0
           else (r, c, m) \<in> set P \<and> (\<forall>c'. (r, c', m) \<in> set P \<longrightarrow> c \<le> c')))"

text \<open>
  The canonical format \<^verbatim>\<open>sum_duplicates\<close> leaves a sparse matrix in: parallel arrays of
  equal length, entries in strictly ascending order of (column, row), hence with
  distinct coordinates, all of them inside the shape.
\<close>

definition canonical :: "coo_matrix \<Rightarrow> bool" where
  "canonical m =
     (length (coo_row m) = length (coo_col m) \<and> length (coo_col m) = length (coo_data m)
      \<and> sorted_wrt (<) (map entry_key (coo_entries m))
      \<and> (\<forall>e \<in> set (coo_entries m). fst e < fst (coo_shape m) \<and> fst (snd e) < snd (coo_shape m))
      \<and> 0 < snd (coo_shape m))"

text \<open>
  What the proofs need of a connected-components labelling \<open>split\<close> of a volume
  \<open>cons\<close>, both given by their voxels: it labels the same positions, it is 0 exactly
  on the background, and voxels with the same component label carry the same label
  in \<open>cons\<close>. (That a component is connected is not needed.)
\<close>

definition split_labelling :: "nat list \<Rightarrow> nat list \<Rightarrow> bool" where
  "split_labelling cons split =
     (length split = length cons
      \<and> (\<forall>i < length cons. (split ! i = 0) = (cons ! i = 0))
      \<and> (\<forall>i < length cons. \<forall>j < length cons. split ! i = split ! j \<longrightarrow> cons ! i = cons ! j))"

text \<open>
  The contract of the connected-components labelling on a volume: the result has the
  shape of the volume and is a labelling of its pieces in the sense above.
  \<^verbatim>\<open>vigra.analysis.labelMultiArrayWithBackground\<close> meets it on every volume.
\<close>

definition component_labelling :: "(ndarray \<Rightarrow> ndarray) \<Rightarrow> ndarray \<Rightarrow> bool" where
  "component_labelling cc labels =
     (shape (cc labels) = shape labels
      \<and> split_labelling (data labels) (data (cc labels)))"

section \<open>Properties of label mappings\<close>

lemma map_of_dict_update: "map_of (dict_update d ps) = map_of d ++ map_of (rev ps)"
  unfolding dict_update_def
proof (induction ps arbitrary: d)
  case Nil
  then show ?case by simp
next
  case (Cons p ps)
  obtain k v where p: "p = (k, v)" by (cases p)
  show ?case
    by (simp add: p Cons.IH update_conv' map_add_def fun_eq_iff split: option.splits)
qed

lemma map_of_dict_of: "map_of (dict_of ps) = map_of (rev ps)"
  by (simp add: dict_of_def map_of_dict_update)

lemma distinct_dict_update:
  "distinct (map fst d) \<Longrightarrow> distinct (map fst (dict_update d ps))"
  unfolding dict_update_def
  by (induction ps arbitrary: d) (auto simp: distinct_update split: prod.splits)

lemma distinct_dict_of: "distinct (map fst (dict_of ps))"
  by (simp add: dict_of_def distinct_dict_update)

lemma keys_dict_update: "fst ` set (dict_update d ps) = fst ` set d \<union> fst ` set ps"
proof -
  have "dom (map_of (dict_update d ps)) = dom (map_of d) \<union> dom (map_of (rev ps))"
    by (simp add: map_of_dict_update Un_commute)
  then show ?thesis by (simp add: dom_map_of_conv_image_fst)
qed

lemma keys_dict_of: "fst ` set (dict_of ps) = fst ` set ps"
  by (simp add: dict_of_def keys_dict_update)

lemma map_of_zip_same: "map_of (rev (zip u u)) x = (if x \<in> set u then Some x else None)"
proof (cases "x \<in> set u")
  case True
  then have "(x, x) \<in> set (rev (zip u u))" by (auto simp: set_zip in_set_conv_nth)
  moreover have "\<And>y. (x, y) \<in> set (rev (zip u u)) \<Longrightarrow> y = x" by (auto simp: set_zip)
  ultimately show ?thesis using True
    by (metis (no_types, lifting) map_of_SomeD option.exhaust map_of_eq_None_iff image_eqI fst_conv)
next
  case False
  then have "x \<notin> fst ` set (rev (zip u u))" by (auto simp: set_zip)
  then show ?thesis using False by (simp add: map_of_eq_None_iff)
qed

section \<open>Machine arithmetic\<close>

lemma bit_length_le_iff: "bit_length n \<le> w \<longleftrightarrow> n < 2 ^ w"
proof (induction n arbitrary: w rule: bit_length.induct)
  case (1 n)
  show ?case
  proof (cases "n = 0")
    case True
    then show ?thesis by (simp add: bit_length.simps)
  next
    case False
    show ?thesis
    proof (cases w)
      case 0
      then show ?thesis using False by (simp add: bit_length.simps)
    next
      case (Suc v)
      have "bit_length n \<le> Suc v \<longleftrightarrow> bit_length (n div 2) \<le> v"
        using False by (subst bit_length.simps) simp
      also have "\<dots> \<longleftrightarrow> n div 2 < 2 ^ v" using "1.IH"[OF False] .
      also have "\<dots> \<longleftrightarrow> n < 2 ^ Suc v" by (simp add: div_less_iff_less_mult mult.commute)
      finally show ?thesis using Suc by simp
    qed
  qed
qed

lemma uint64_add_code [code]:
  "uint64_add a b = (if bit_length (a + b) \<le> 64 then a + b else (a + b) mod 2 ^ 64)"
  by (simp add: uint64_add_def bit_length_le_iff)

lemma float64_code [code]:
  "float64 n =
     (if bit_length n \<le> 53 then n
      else let e = bit_length n - 53;
               q = n div 2 ^ e;
               r = n mod 2 ^ e
           in if 2 * r < 2 ^ e \<or> (2 * r = 2 ^ e \<and> even q) then q * 2 ^ e
              else (q + 1) * 2 ^ e)"
  unfolding float64_def bit_length_le_iff ..

lemma uint32_array_add_code [code]:
  "uint32_array_add label offset =
     (if bit_length (label + offset) \<le> 32 then label + offset
      else if bit_length offset \<le> 32 then (label + offset) mod 2 ^ 32
      else (label + offset) mod 2 ^ 64)"
proof -
  have "offset < 2 ^ 32" if "label + offset < 2 ^ 32"
    using that by simp
  then show ?thesis by (auto simp: uint32_array_add_def bit_length_le_iff)
qed

lemma float64_exact: "n < 2 ^ 53 \<Longrightarrow> float64 n = n"
  by (simp add: float64_def)

lemma float64_add_exact: "a + b < 2 ^ 53 \<Longrightarrow> float64_add a b = a + b"
  by (simp add: float64_add_def float64_def)

section \<open>Offset assignment\<close>

lemma uint64_add_exact: "a + b < 2 ^ 64 \<Longrightarrow> uint64_add a b = a + b"
  by (simp add: uint64_add_def)

lemma uint32_array_add_exact: "l + offset < 2 ^ 32 \<Longrightarrow> uint32_array_add l offset = l + offset"
  by (simp add: uint32_array_add_def)

lemma uint32_array_add_offset_iff:
  assumes "l < 2 ^ 32"
  shows "uint32_array_add l offset = offset \<longleftrightarrow> l = 0 \<and> offset < 2 ^ 64"
proof (cases "offset < 2 ^ 32")
  case True
  show ?thesis
  proof (cases "l + offset < 2 ^ 32")
    case True
    then show ?thesis using \<open>offset < 2 ^ 32\<close> by (simp add: uint32_array_add_def)
  next
    case False
    then have ge: "2 ^ 32 \<le> l + offset" by simp
    have lt: "l + offset < 2 * 2 ^ 32" using assms True by simp
    have "(l + offset) mod 2 ^ 32 = l + offset - 2 ^ 32"
      using ge lt by (simp add: mod_if le_mod_geq)
    then show ?thesis using True assms ge by (simp add: uint32_array_add_def)
  qed
next
  case False
  show ?thesis
  proof (cases "offset < 2 ^ 64")
    case True
    show ?thesis
    proof (cases "l + offset < 2 ^ 64")
      case True
      then show ?thesis using False \<open>offset < 2 ^ 64\<close> by (simp add: uint32_array_add_def)
    next
      case F: False
      then have ge: "2 ^ 64 \<le> l + offset" by simp
      have lt: "l + offset < 2 * 2 ^ 64" using assms True by simp
      have "(l + offset) mod 2 ^ 64 = l + offset - 2 ^ 64"
        using ge lt by (simp add: mod_if le_mod_geq)
      then show ?thesis using False True assms ge by (simp add: uint32_array_add_def)
    qed
  next
    case F: False
    have "(l + offset) mod 2 ^ 64 < (2 ^ 64 :: nat)" by simp
    then have "(l + offset) mod 2 ^ 64 \<noteq> offset" using F by linarith
    then show ?thesis using False F by (simp add: uint32_array_add_def)
  qed
qed

lemma offsets_loop_other:
  "k \<notin> sv_index ` fst ` set xs \<Longrightarrow> map_of (offsets_loop xs offs off) k = map_of offs k"
  by (induction xs offs off rule: offsets_loop.induct) (auto simp: update_conv')

lemma offsets_loop_nth:
  "distinct (map (sv_index \<circ> fst) xs) \<Longrightarrow> i < length xs \<Longrightarrow>
   off + sum_list (map snd xs) < 2 ^ 64 \<Longrightarrow>
   map_of (offsets_loop xs offs off) (sv_index (fst (xs ! i)))
   = Some (off + sum_list (map snd (take i xs)))"
proof (induction xs offs off arbitrary: i rule: offsets_loop.induct)
  case (1 offsets offset)
  then show ?case by simp
next
  case (2 subvolume max_id rest offsets offset)
  have ex: "uint64_add offset max_id = offset + max_id"
    using "2.prems"(3) by (intro uint64_add_exact) simp
  show ?case
  proof (cases i)
    case 0
    have "sv_index subvolume \<notin> sv_index ` fst ` set rest"
      using "2.prems"(1) by (auto simp: image_iff)
    then show ?thesis using 0 by (simp add: offsets_loop_other update_conv')
  next
    case (Suc i')
    have "map_of (offsets_loop rest (AList.update (sv_index subvolume) offset offsets)
            (uint64_add offset max_id)) (sv_index (fst (rest ! i')))
          = Some (uint64_add offset max_id + sum_list (map snd (take i' rest)))"
      using "2.prems" Suc by (intro "2.IH") (simp_all add: ex add.assoc)
    then show ?thesis using Suc by (simp add: ex add.assoc)
  qed
qed

lemma assign_offsets_nth:
  assumes "distinct (map (sv_index \<circ> fst) chunks)" "i < length chunks"
    and "sum_list (map (snd \<circ> snd) chunks) < 2 ^ 64"
  shows "map_of (assign_offsets (map fst chunks) (map (snd \<circ> snd) chunks))
           (sv_index (fst (chunks ! i)))
         = Some (sum_list (take i (map (snd \<circ> snd) chunks)))"
proof -
  let ?xs = "zip (map fst chunks) (map (snd \<circ> snd) chunks)"
  have f: "map fst ?xs = map fst chunks" and s: "map snd ?xs = map (snd \<circ> snd) chunks"
    by simp_all
  have d: "distinct (map (sv_index \<circ> fst) ?xs)"
    using assms(1) f by (metis map_map)
  have b: "0 + sum_list (map snd ?xs) < 2 ^ 64" using assms(3) s by simp
  have "map_of (offsets_loop ?xs [] 0) (sv_index (fst (?xs ! i)))
        = Some (0 + sum_list (map snd (take i ?xs)))"
    using assms(2) by (intro offsets_loop_nth[OF d _ b]) simp
  moreover have "fst (?xs ! i) = fst (chunks ! i)" using assms(2) by simp
  moreover have "map snd (take i ?xs) = take i (map (snd \<circ> snd) chunks)"
    using s by (metis take_map)
  ultimately show ?thesis by (simp add: assign_offsets_def)
qed

lemma sum_list_take_mono:
  fixes xs :: "nat list"
  assumes "i < j" "j \<le> length xs"
  shows "sum_list (take i xs) + xs ! i \<le> sum_list (take j xs)"
proof -
  have "take j xs = take (Suc i) xs @ drop (Suc i) (take j xs)"
    using assms by (metis Suc_leI append_take_drop_id min.absorb1 take_take)
  moreover have "sum_list (take (Suc i) xs) = sum_list (take i xs) + xs ! i"
    using assms by (simp add: take_Suc_conv_app_nth)
  ultimately show ?thesis by (metis le_add1 sum_list_append)
qed

lemma sum_list_take_le:
  fixes xs :: "nat list"
  shows "sum_list (take j xs) \<le> sum_list xs"
proof -
  have "sum_list xs = sum_list (take j xs) + sum_list (drop j xs)"
    by (metis append_take_drop_id sum_list_append)
  then show ?thesis by simp
qed

lemma relabel_no_merges:
  assumes "map_of subvolume_offsets (sv_index subvolume) = Some offset"
  shows "relabel subvolume_offsets [] (subvolume, labels)
         = Inr (subvolume,
                labels\<lparr>data := map (\<lambda>l. if uint32_array_add l offset = offset then 0
                                        else uint32_array_add l offset) (data labels)\<rparr>)"
proof -
  have "(\<lambda>x. case if x \<in> S then Some x else None of None \<Rightarrow> x | Some y \<Rightarrow> y) = (\<lambda>x. x)"
    for S :: "nat set"
    by auto
  then show ?thesis using assms
    by (simp add: relabel_def bind_def Let_def applyMapping_def map_of_dict_of
        map_of_zip_same comp_def)
qed

lemma offset_ranges_apart:
  fixes ms :: "nat list"
  assumes "i < length ms" "j < length ms" "i \<noteq> j"
    and "1 \<le> a" "a \<le> ms ! i" "1 \<le> b" "b \<le> ms ! j"
  shows "a + sum_list (take i ms) \<noteq> b + sum_list (take j ms)"
proof (cases "i < j")
  case True
  then have "sum_list (take i ms) + ms ! i \<le> sum_list (take j ms)"
    using assms(2) by (intro sum_list_take_mono) simp_all
  then show ?thesis using assms by linarith
next
  case False
  then have "j < i" using assms(3) by simp
  then have "sum_list (take j ms) + ms ! j \<le> sum_list (take i ms)"
    using assms(1) by (intro sum_list_take_mono) simp_all
  then show ?thesis using assms by linarith
qed

lemma offsets_separate_below_wrap:
  fixes chunks :: "(subvolume \<times> ndarray \<times> nat) list"
  assumes "distinct (map (sv_index \<circ> fst) chunks)"
    and "i < length chunks" "j < length chunks" "i \<noteq> j"
    and "1 \<le> a" "a \<le> snd (snd (chunks ! i))"
    and "1 \<le> b" "b \<le> snd (snd (chunks ! j))"
    and "sum_list (map (snd \<circ> snd) chunks) < 2 ^ 32"
  shows "\<exists>oi oj.
           map_of (assign_offsets (map fst chunks) (map (snd \<circ> snd) chunks))
             (sv_index (fst (chunks ! i))) = Some oi
         \<and> oi = sum_list (take i (map (snd \<circ> snd) chunks))
         \<and> map_of (assign_offsets (map fst chunks) (map (snd \<circ> snd) chunks))
             (sv_index (fst (chunks ! j))) = Some oj
         \<and> oj = sum_list (take j (map (snd \<circ> snd) chunks))
         \<and> uint32_array_add a oi = a + oi \<and> uint32_array_add b oj = b + oj
         \<and> a + oi \<noteq> b + oj"
proof -
  let ?ms = "map (snd \<circ> snd) chunks"
  let ?offs = "assign_offsets (map fst chunks) ?ms"
  have big: "sum_list ?ms < 2 ^ 64"
  proof -
    have "(2::nat) ^ 32 \<le> 2 ^ 64" by simp
    then show ?thesis using assms(9) by linarith
  qed
  have oi: "map_of ?offs (sv_index (fst (chunks ! i))) = Some (sum_list (take i ?ms))"
    using assms(1,2) big by (rule assign_offsets_nth)
  have oj: "map_of ?offs (sv_index (fst (chunks ! j))) = Some (sum_list (take j ?ms))"
    using assms(1,3) big by (rule assign_offsets_nth)
  have ne: "a + sum_list (take i ?ms) \<noteq> b + sum_list (take j ?ms)"
    using assms(2-8) by (intro offset_ranges_apart) simp_all
  have bound: "x + sum_list (take k ?ms) < 2 ^ 32" if "k < length chunks" "x \<le> ?ms ! k" for x k
  proof -
    have "sum_list (take k ?ms) + ?ms ! k \<le> sum_list (take (Suc k) ?ms)"
      using that(1) by (simp add: take_Suc_conv_app_nth)
    also have "\<dots> \<le> sum_list ?ms" by (rule sum_list_take_le)
    finally show ?thesis using that(2) assms(9) by linarith
  qed
  have "uint32_array_add a (sum_list (take i ?ms)) = a + sum_list (take i ?ms)"
    using assms(2,6) by (intro uint32_array_add_exact bound) simp_all
  moreover have "uint32_array_add b (sum_list (take j ?ms)) = b + sum_list (take j ?ms)"
    using assms(3,8) by (intro uint32_array_add_exact bound) simp_all
  ultimately show ?thesis using oi oj ne by simp
qed

lemma far_blocks_offsets:
  "assign_offsets (map fst (elems far_blocks)) (map (snd \<circ> snd) (elems far_blocks))
   = [(0, 0), (1, 4294967295)]"
  by (simp add: far_blocks_def assign_offsets_def subvolumeP_def subvolumeQ_def uint64_add_def)

lemma far_blocks_merge_list: "collect_merge_list tch far_blocks = Inr []"
  by (simp add: collect_merge_list_def grouped_boundaries_def far_blocks_def
      flatMap_tasks_def extract_boundaries_def subvolumeP_def subvolumeQ_def
      groupByKey_def reduceByKey_def bind_def Let_def)

lemma far_blocks_relabel:
  "map_tasks (relabel [(0, 0), (1, 4294967295)] (reconcile []))
     (zip (map fst (elems far_blocks)) (map (fst \<circ> snd) (elems far_blocks)))
   = Inr [(subvolumeP, labelsP), (subvolumeQ, labelsQ\<lparr>data := [1, 0]\<rparr>)]"
proof -
  have r: "reconcile [] = []" by (simp add: reconcile_def)
  have p: "relabel [(0, 0), (1, 4294967295)] [] (subvolumeP, labelsP) = Inr (subvolumeP, labelsP)"
    by (subst relabel_no_merges[where offset = 0])
       (simp_all add: subvolumeP_def labelsP_def uint32_array_add_def)
  have q: "relabel [(0, 0), (1, 4294967295)] [] (subvolumeQ, labelsQ)
           = Inr (subvolumeQ, labelsQ\<lparr>data := [1, 0]\<rparr>)"
    by (subst relabel_no_merges[where offset = 4294967295])
       (simp_all add: subvolumeQ_def labelsQ_def uint32_array_add_def)
  show ?thesis
    by (simp only: r far_blocks_def rdd.simps list.map zip_Cons_Cons zip_Nil fst_conv
        snd_conv comp_apply map_tasks.simps p q bind_def sum.case)
qed

text \<open>
  C2. The offset of a block is the sum of the maximal ids of the blocks before it, and
  as long as the sum of all maximal ids stays below \<open>2 ^ 32\<close> the offset labels of
  different blocks are apart (lemma \<open>offsets_separate_below_wrap\<close>). The relabel stage,
  however, adds the offset to the \<^verbatim>\<open>uint32\<close> label volume before it widens the volume
  to \<^verbatim>\<open>uint64\<close>, so the sum wraps modulo \<open>2 ^ 32\<close>. For the two blocks P and Q, which
  have no neighbour and hence no merge edge, with the maximal ids 4294967295 and 2, the
  offsets are 0 and 4294967295. The label 1 of block P and the label 2 of block Q are
  different labels of different blocks, and their offset sums \<open>1 + 0\<close> and
  \<open>2 + 4294967295\<close> differ; yet the stitched output carries the global label 1 for
  both, and the label 1 of block Q has become the background label 0.
\<close>

theorem offset_labels_collide_on_wrap:
  "collect_merge_list tch far_blocks = Inr []
   \<and> assign_offsets (map fst (elems far_blocks)) (map (snd \<circ> snd) (elems far_blocks))
       = [(0, 0), (1, 4294967295)]
   \<and> stitch tch far_blocks
       = Inr [(subvolumeP, labelsP), (subvolumeQ, labelsQ\<lparr>data := [1, 0]\<rparr>)]
   \<and> data labelsP ! 0 = 1 \<and> data labelsQ ! 0 = 2
   \<and> data labelsP ! 0 + 0 \<noteq> data labelsQ ! 0 + 4294967295"
proof -
  have "stitch tch far_blocks
       = Inr [(subvolumeP, labelsP), (subvolumeQ, labelsQ\<lparr>data := [1, 0]\<rparr>)]"
    unfolding stitch_def Let_def far_blocks_merge_list far_blocks_offsets
    by (simp only: bind_def sum.case far_blocks_relabel simp_thms)
  moreover have "data labelsP ! 0 = 1 \<and> data labelsQ ! 0 = 2
     \<and> data labelsP ! 0 + 0 \<noteq> data labelsQ ! 0 + 4294967295"
    by (simp add: labelsP_def labelsQ_def)
  ultimately show ?thesis using far_blocks_merge_list far_blocks_offsets by simp
qed

section \<open>Overlap table construction\<close>

lemma contingency_table_assert_iff:
  "contingency_table vol1 vol2 sparse = Inl AssertionError
   \<longleftrightarrow> length (data vol1) \<noteq> length (data vol2)"
  by (simp add: contingency_table_def reshape_flat_def Let_def)

text \<open>
  C10. The assertion of \<^verbatim>\<open>contingency_table\<close> runs after both volumes have been
  flattened, so it compares the numbers of voxels and not the three-dimensional shapes.
  Two well-formed volumes of the different shapes \<open>(1, 1, 2)\<close> and \<open>(2, 1, 1)\<close> are
  accepted, for the sparse and for the dense table, where the claim demands a failure.
\<close>

theorem contingency_table_accepts_unequal_shapes:
  "shape \<lparr>shape = [1, 1, 2], data = [1, 2]\<rparr> \<noteq> shape \<lparr>shape = [2, 1, 1], data = [1, 1]\<rparr>
   \<and> wf_array \<lparr>shape = [1, 1, 2], data = [1, 2]\<rparr>
   \<and> wf_array \<lparr>shape = [2, 1, 1], data = [1, 1]\<rparr>
   \<and> contingency_table \<lparr>shape = [1, 1, 2], data = [1, 2]\<rparr>
         \<lparr>shape = [2, 1, 1], data = [1, 1]\<rparr> True
       = Inr (Sparse \<lparr>coo_shape = (3, 2), coo_row = [1, 2], coo_col = [1, 1],
                      coo_data = [1, 1]\<rparr>)
   \<and> contingency_table \<lparr>shape = [1, 1, 2], data = [1, 2]\<rparr>
         \<lparr>shape = [2, 1, 1], data = [1, 1]\<rparr> False
       = Inr (Dense [[0, 0], [0, 1], [0, 1]])"
  by code_simp

section \<open>Row-wise argmax and the counts of an overlap table\<close>

lemma argmax_scan_spec:
  assumes "besti < length pre" "best = pre ! besti"
    and "\<forall>j<length pre. pre ! j \<le> best" "\<forall>j<besti. pre ! j < best"
  shows "is_argmax (\<lambda>j. (pre @ xs) ! j) (length (pre @ xs)) (argmax_scan xs (length pre) (best, besti))"
  using assms
proof (induction xs arbitrary: pre best besti)
  case Nil
  then show ?case by (simp add: is_argmax_def)
next
  case (Cons x xs)
  let ?pre = "pre @ [x]"
  show ?case
  proof (cases "x > best")
    case True
    have "is_argmax (\<lambda>j. (?pre @ xs) ! j) (length (?pre @ xs)) (argmax_scan xs (length ?pre) (x, length pre))"
    proof (rule Cons.IH)
      show "length pre < length ?pre" by simp
      show "x = ?pre ! length pre" by simp
      show "\<forall>j<length ?pre. ?pre ! j \<le> x"
      proof (intro allI impI)
        fix j assume "j < length ?pre"
        then consider "j < length pre" | "j = length pre" by fastforce
        then show "?pre ! j \<le> x"
        proof cases
          case 1
          then have "pre ! j \<le> best" using Cons.prems(3) by simp
          then show ?thesis using 1 True by (simp add: nth_append)
        next
          case 2 then show ?thesis by simp
        qed
      qed
      show "\<forall>j<length pre. ?pre ! j < x"
      proof (intro allI impI)
        fix j assume j: "j < length pre"
        then have "pre ! j \<le> best" using Cons.prems(3) by simp
        then show "?pre ! j < x" using j True by (simp add: nth_append)
      qed
    qed
    then show ?thesis using True by simp
  next
    case False
    have "is_argmax (\<lambda>j. (?pre @ xs) ! j) (length (?pre @ xs)) (argmax_scan xs (length ?pre) (best, besti))"
    proof (rule Cons.IH)
      show "besti < length ?pre" using Cons.prems(1) by simp
      show "best = ?pre ! besti" using Cons.prems(1,2) by (simp add: nth_append)
      show "\<forall>j<length ?pre. ?pre ! j \<le> best"
        using Cons.prems(3) False by (auto simp: nth_append less_Suc_eq)
      show "\<forall>j<besti. ?pre ! j < best"
        using Cons.prems(1,4) by (auto simp: nth_append)
    qed
    then show ?thesis using False by simp
  qed
qed

lemma np_argmax_spec:
  "xs \<noteq> [] \<Longrightarrow> \<exists>c. np_argmax xs = Inr c \<and> is_argmax (\<lambda>j. xs ! j) (length xs) c"
proof (cases xs)
  case Nil
  assume "xs \<noteq> []" with Nil show ?thesis by simp
next
  case (Cons x xs')
  have "is_argmax (\<lambda>j. ([x] @ xs') ! j) (length ([x] @ xs')) (argmax_scan xs' (length [x]) (x, 0))"
    by (rule argmax_scan_spec) simp_all
  then show ?thesis using Cons by (simp add: np_argmax_def)
qed

lemma np_argmax_axis1_spec:
  assumes "\<forall>row \<in> set rows. row \<noteq> []"
  shows "\<exists>cs. np_argmax_axis1 rows = Inr cs \<and> length cs = length rows
         \<and> (\<forall>r<length rows. is_argmax (\<lambda>j. rows ! r ! j) (length (rows ! r)) (cs ! r))"
  using assms
proof (induction rows)
  case Nil
  then show ?case by simp
next
  case (Cons row rows)
  obtain c where c: "np_argmax row = Inr c" "is_argmax (\<lambda>j. row ! j) (length row) c"
    using np_argmax_spec[of row] Cons.prems by auto
  obtain cs where cs: "np_argmax_axis1 rows = Inr cs" "length cs = length rows"
      "\<forall>r<length rows. is_argmax (\<lambda>j. rows ! r ! j) (length (rows ! r)) (cs ! r)"
    using Cons.IH Cons.prems by auto
  have "\<forall>r<length (row # rows). is_argmax (\<lambda>j. (row # rows) ! r ! j) (length ((row # rows) ! r)) ((c # cs) ! r)"
    using c(2) cs(3) by (auto simp: nth_Cons split: nat.splits)
  then show ?case using c(1) cs(1,2) by simp
qed

lemma add_at_shape:
  "length (add_at t p) = length t \<and> (\<forall>i<length t. length (add_at t p ! i) = length (t ! i))"
proof (cases p)
  case (Pair a b)
  have "length (t[a := (t ! a)[b := Suc (t ! a ! b)]] ! i) = length (t ! i)" if "i < length t" for i
    using that by (cases "i = a") simp_all
  then show ?thesis using Pair by (simp add: add_at_def)
qed

lemma foldl_add_at_shape:
  "length (foldl add_at t ps) = length t \<and> (\<forall>i<length t. length (foldl add_at t ps ! i) = length (t ! i))"
proof (induction ps arbitrary: t)
  case Nil then show ?case by simp
next
  case (Cons p ps)
  show ?case using Cons.IH[of "add_at t p"] add_at_shape[of t p] by simp
qed

lemma add_at_nth:
  assumes "fst p < length t" "snd p < length (t ! fst p)" "r < length t" "c < length (t ! r)"
  shows "add_at t p ! r ! c = t ! r ! c + (if p = (r, c) then 1 else 0)"
  using assms by (cases p) (auto simp: add_at_def nth_list_update)

lemma foldl_add_at_nth:
  assumes "\<forall>p \<in> set ps. fst p < length t \<and> snd p < length (t ! fst p)" "r < length t" "c < length (t ! r)"
  shows "foldl add_at t ps ! r ! c = t ! r ! c + count_list ps (r, c)"
  using assms
proof (induction ps arbitrary: t)
  case Nil then show ?case by simp
next
  case (Cons p ps)
  have sh: "length (add_at t p) = length t" "\<forall>i<length t. length (add_at t p ! i) = length (t ! i)"
    using add_at_shape[of t p] by auto
  have "foldl add_at (add_at t p) ps ! r ! c = add_at t p ! r ! c + count_list ps (r, c)"
    using Cons.prems sh by (intro Cons.IH) auto
  moreover have "add_at t p ! r ! c = t ! r ! c + (if p = (r, c) then 1 else 0)"
    using Cons.prems by (intro add_at_nth) auto
  ultimately show ?case by auto
qed

lemma entry_sum_Cons:
  "entry_sum ((r', c', d) # es) r c = (if r' = r \<and> c' = c then d else 0) + entry_sum es r c"
  by (simp add: entry_sum_def)

lemma entry_key_simp [simp]: "entry_key (r, c, d) = (c, r)"
  by (simp add: entry_key_def)

lemma entry_sum_Nil: "entry_sum [] r c = 0"
  by (simp add: entry_sum_def)

lemma entry_sum_sum_adjacent: "entry_sum (sum_adjacent es) r c = entry_sum es r c"
  by (induction es rule: sum_adjacent.induct) (auto simp: entry_sum_Cons entry_sum_Nil)

lemma coords_sum_adjacent:
  "(\<lambda>(r, c, d). (r, c)) ` set (sum_adjacent es) = (\<lambda>(r, c, d). (r, c)) ` set es"
  by (induction es rule: sum_adjacent.induct) auto

lemma keys_sum_adjacent: "entry_key ` set (sum_adjacent es) = entry_key ` set es"
  by (induction es rule: sum_adjacent.induct) auto

lemma positive_sum_adjacent:
  "\<forall>e \<in> set es. snd (snd e) > 0 \<Longrightarrow> \<forall>e \<in> set (sum_adjacent es). snd (snd e) > 0"
  by (induction es rule: sum_adjacent.induct) auto

lemma sorted_sum_adjacent:
  "sorted (map entry_key es) \<Longrightarrow> sorted_wrt (<) (map entry_key (sum_adjacent es))"
proof (induction es rule: sum_adjacent.induct)
  case 1
  then show ?case by simp
next
  case (2 e)
  then show ?case by simp
next
  case (3 r c d r' c' d' es)
  show ?case
  proof (cases "r = r' \<and> c = c'")
    case True
    have "sorted (map entry_key ((r, c, d + d') # es))"
      using "3.prems" True by simp
    then show ?thesis using "3.IH"(1) True by simp
  next
    case False
    have tl: "sorted_wrt (<) (map entry_key (sum_adjacent ((r', c', d') # es)))"
      using "3.prems" "3.IH"(2) False by auto
    have "entry_key (r, c, d) \<le> entry_key (r', c', d')" using "3.prems" by simp
    moreover have "entry_key (r, c, d) \<noteq> entry_key (r', c', d')" using False by auto
    ultimately have lt: "entry_key (r, c, d) < entry_key (r', c', d')" by (rule le_neq_trans)
    have le: "entry_key (r', c', d') \<le> k" if "k \<in> entry_key ` set ((r', c', d') # es)" for k
    proof -
      have "sorted (entry_key (r', c', d') # map entry_key es)" using "3.prems" by simp
      then have "\<forall>k' \<in> set (map entry_key es). entry_key (r', c', d') \<le> k'" by simp
      then show ?thesis using that by auto
    qed
    have "entry_key (r, c, d) < k" if "k \<in> entry_key ` set (sum_adjacent ((r', c', d') # es))" for k
    proof -
      have "k \<in> entry_key ` set ((r', c', d') # es)" using that keys_sum_adjacent by blast
      then have "entry_key (r', c', d') \<le> k" by (rule le)
      with lt show ?thesis by (rule less_le_trans)
    qed
    then have hd: "\<forall>k \<in> set (map entry_key (sum_adjacent ((r', c', d') # es))). entry_key (r, c, d) < k"
      by simp
    have "sum_adjacent ((r, c, d) # (r', c', d') # es) = (r, c, d) # sum_adjacent ((r', c', d') # es)"
      using False by auto
    then show ?thesis using tl hd by (simp only: list.map sorted_wrt.simps simp_thms)
  qed
qed

lemma entry_sum_notin: "(\<And>d. (r, c, d) \<notin> set es) \<Longrightarrow> entry_sum es r c = 0"
proof (induction es)
  case Nil
  then show ?case by (simp add: entry_sum_Nil)
next
  case (Cons e es)
  obtain r' c' d' where e: "e = (r', c', d')" by (cases e)
  have "\<not> (r' = r \<and> c' = c)" using Cons.prems[of d'] e by auto
  moreover have "entry_sum es r c = 0" using Cons.prems by (intro Cons.IH) auto
  ultimately show ?case using e by (auto simp: entry_sum_Cons)
qed

lemma entry_sum_mem:
  assumes "sorted_wrt (<) (map entry_key es)" "(r, c, d) \<in> set es"
  shows "entry_sum es r c = d"
  using assms
proof (induction es)
  case Nil
  then show ?case by simp
next
  case (Cons e es)
  obtain r' c' d' where e: "e = (r', c', d')" by (cases e)
  have above: "\<forall>e' \<in> set es. (c', r') < entry_key e'" using Cons.prems(1) e by simp
  show ?case
  proof (cases "e = (r, c, d)")
    case True
    have "(r, c, d0) \<notin> set es" for d0
    proof
      assume "(r, c, d0) \<in> set es"
      then have "(c', r') < entry_key (r, c, d0)" using above by blast
      then show False using True e by simp
    qed
    then have "entry_sum es r c = 0" by (rule entry_sum_notin)
    then show ?thesis using True e by (simp add: entry_sum_Cons)
  next
    case False
    then have m: "(r, c, d) \<in> set es" using Cons.prems(2) by simp
    then have "(c', r') < entry_key (r, c, d)" using above by blast
    then have "\<not> (r' = r \<and> c' = c)" by auto
    moreover have "entry_sum es r c = d" using Cons.prems(1) m by (intro Cons.IH) simp_all
    ultimately show ?thesis using e by (auto simp: entry_sum_Cons)
  qed
qed

lemma row_best_step:
  assumes sorted: "sorted_wrt (<) (map entry_key (P @ [(r0, c0, d0)]))"
    and rb: "row_best P r (m, c)"
  shows "row_best (P @ [(r0, c0, d0)]) r
           (if r = r0 \<and> d0 > m then (d0, c0) else (m, c))"
proof -
  have before: "entry_key e < (c0, r0)" if "e \<in> set P" for e
    using sorted that by (simp add: sorted_wrt_append)
  have le: "d' \<le> m" if "(r, c', d') \<in> set P" for c' d'
    using rb that by (auto simp: row_best_def)
  show ?thesis
  proof (cases "r = r0 \<and> d0 > m")
    case True
    have "d' \<le> d0" if "(r, c', d') \<in> set (P @ [(r0, c0, d0)])" for c' d'
      using that le[of c' d'] True by auto
    moreover have "c0 \<le> c'" if "(r, c', d0) \<in> set (P @ [(r0, c0, d0)])" for c'
      using that le[of c' d0] True by auto
    moreover have "d0 \<noteq> 0" using True by simp
    ultimately show ?thesis using True by (auto simp: row_best_def)
  next
    case False
    have 1: "d' \<le> m" if "(r, c', d') \<in> set (P @ [(r0, c0, d0)])" for c' d'
      using that le[of c' d'] False by auto
    have 2: "c \<le> c'" if "m \<noteq> 0" "(r, c', m) \<in> set (P @ [(r0, c0, d0)])" for c'
    proof (cases "(r, c', m) \<in> set P")
      case True
      then show ?thesis using rb that(1) by (auto simp: row_best_def)
    next
      case False
      then have eq: "r = r0" "c' = c0" using that(2) by auto
      have "(r, c, m) \<in> set P" using rb that(1) by (auto simp: row_best_def)
      then have "entry_key (r, c, m) < (c0, r0)" by (rule before)
      then show ?thesis using eq by auto
    qed
    have 3: "(r, c, m) \<in> set (P @ [(r0, c0, d0)])" if "m \<noteq> 0"
      using rb that by (auto simp: row_best_def)
    have 4: "c = 0" if "m = 0" using rb that by (auto simp: row_best_def)
    have "row_best (P @ [(r0, c0, d0)]) r (m, c)"
      unfolding row_best_def using 1 2 3 4 by (cases "m = 0") auto
    then show ?thesis using False by auto
  qed
qed

lemma sparse_loop_inv:
  assumes "sorted_wrt (<) (map entry_key (P @ es))"
    and "\<forall>e \<in> set es. fst e < length rm"
    and "\<forall>r < length rm. row_best P r (rm ! r)"
  shows "\<exists>rm'. sparse_row_argmax_loop (map (\<lambda>(r, c, d). (c, r, d)) es) rm = Inr rm'
          \<and> length rm' = length rm \<and> (\<forall>r < length rm. row_best (P @ es) r (rm' ! r))"
  using assms
proof (induction es arbitrary: P rm)
  case Nil
  then show ?case by simp
next
  case (Cons e es)
  obtain r0 c0 d0 where e: "e = (r0, c0, d0)" by (cases e)
  let ?P = "P @ [(r0, c0, d0)]"
  let ?rm = "if d0 > fst (rm ! r0) then rm[r0 := (d0, c0)] else rm"
  have r0: "r0 < length rm" using Cons.prems(2) e by simp
  have s1: "sorted_wrt (<) (map entry_key ?P)"
    using Cons.prems(1) e by (simp add: sorted_wrt_append)
  have s2: "sorted_wrt (<) (map entry_key (?P @ es))" using Cons.prems(1) e by simp
  have inv: "\<forall>r < length ?rm. row_best ?P r (?rm ! r)"
  proof (intro allI impI)
    fix r assume "r < length ?rm"
    then have r: "r < length rm" by (simp split: if_splits)
    obtain m c where mc: "rm ! r = (m, c)" by (cases "rm ! r")
    have "row_best P r (m, c)" using Cons.prems(3) r mc by auto
    then have "row_best ?P r (if r = r0 \<and> d0 > m then (d0, c0) else (m, c))"
      by (rule row_best_step[OF s1])
    moreover have "?rm ! r = (if r = r0 \<and> d0 > m then (d0, c0) else (m, c))"
      using r mc by (cases "r = r0") (auto simp: nth_list_update)
    ultimately show "row_best ?P r (?rm ! r)" by simp
  qed
  have len: "length ?rm = length rm" by simp
  have "\<exists>rm'. sparse_row_argmax_loop (map (\<lambda>(r, c, d). (c, r, d)) es) ?rm = Inr rm'
          \<and> length rm' = length ?rm \<and> (\<forall>r < length ?rm. row_best (?P @ es) r (rm' ! r))"
    using s2 Cons.prems(2) inv by (intro Cons.IH) (simp_all split: if_splits)
  then show ?case using e r0 len by (simp add: Let_def)
qed

lemma zip_swap3:
  "length xs = length ys \<Longrightarrow> length ys = length zs \<Longrightarrow>
   zip ys (zip xs zs) = map (\<lambda>(r, c, d). (c, r, d)) (zip xs (zip ys zs))"
  by (induction xs ys zs rule: list_induct3) simp_all

lemma row_best_is_argmax:
  assumes "sorted_wrt (<) (map entry_key es)"
    and "\<forall>e \<in> set es. fst (snd e) < n" "0 < n"
    and "row_best es r (m, c)"
  shows "is_argmax (entry_sum es r) n c \<and> entry_sum es r c = m"
proof -
  have le: "d' \<le> m" if "(r, c', d') \<in> set es" for c' d'
    using assms(4) that by (auto simp: row_best_def)
  have val: "entry_sum es r j \<le> m" for j
  proof (cases "\<exists>d. (r, j, d) \<in> set es")
    case True
    then obtain d where d: "(r, j, d) \<in> set es" by blast
    then have "entry_sum es r j = d" using assms(1) by (intro entry_sum_mem)
    then show ?thesis using le[OF d] by simp
  next
    case False
    then have "entry_sum es r j = 0" by (intro entry_sum_notin) blast
    then show ?thesis by simp
  qed
  show ?thesis
  proof (cases "m = 0")
    case True
    then have "c = 0" using assms(4) by (auto simp: row_best_def)
    moreover have "entry_sum es r j = 0" for j using val[of j] True by simp
    ultimately show ?thesis using assms(3) True by (simp add: is_argmax_def)
  next
    case False
    then have mem: "(r, c, m) \<in> set es" and low: "\<And>c'. (r, c', m) \<in> set es \<Longrightarrow> c \<le> c'"
      using assms(4) by (auto simp: row_best_def)
    have c: "entry_sum es r c = m" using assms(1) mem by (rule entry_sum_mem)
    have "c < n" using assms(2) mem by force
    moreover have "entry_sum es r j < m" if "j < c" for j
    proof (cases "\<exists>d. (r, j, d) \<in> set es")
      case True
      then obtain d where d: "(r, j, d) \<in> set es" by blast
      then have e: "entry_sum es r j = d" using assms(1) by (intro entry_sum_mem)
      have "d \<noteq> m" using low[of j] d that by auto
      then show ?thesis using le[OF d] e by simp
    next
      case False
      then have "entry_sum es r j = 0" by (intro entry_sum_notin) blast
      then show ?thesis using \<open>m \<noteq> 0\<close> by simp
    qed
    ultimately show ?thesis using val c by (simp add: is_argmax_def)
  qed
qed

lemma sparse_row_argmax_canonical:
  assumes "canonical m"
  shows "\<exists>cs. sparse_row_argmax (coo_col m) (coo_row m) (coo_data m) (fst (coo_shape m)) = Inr cs
          \<and> length cs = fst (coo_shape m)
          \<and> (\<forall>r < fst (coo_shape m).
                is_argmax (entry_sum (coo_entries m) r) (snd (coo_shape m)) (cs ! r)
                \<and> (\<forall>c d. (r, c, d) \<in> set (coo_entries m) \<longrightarrow> d \<le> entry_sum (coo_entries m) r (cs ! r)))"
proof -
  let ?es = "coo_entries m" and ?n = "fst (coo_shape m)"
  have z: "zip (coo_col m) (zip (coo_row m) (coo_data m)) = map (\<lambda>(r, c, d). (c, r, d)) ?es"
    unfolding coo_entries_def using assms by (intro zip_swap3) (simp_all add: canonical_def)
  have srt: "sorted_wrt (<) (map entry_key ?es)" using assms by (simp add: canonical_def)
  have "\<exists>rm'. sparse_row_argmax_loop (map (\<lambda>(r, c, d). (c, r, d)) ?es) (replicate ?n (0, 0)) = Inr rm'
          \<and> length rm' = length (replicate ?n (0 :: nat, 0 :: nat))
          \<and> (\<forall>r < length (replicate ?n (0 :: nat, 0 :: nat)). row_best ([] @ ?es) r (rm' ! r))"
    using assms by (intro sparse_loop_inv) (auto simp: canonical_def row_best_def)
  then obtain rm' where rm': "sparse_row_argmax_loop (map (\<lambda>(r, c, d). (c, r, d)) ?es) (replicate ?n (0, 0)) = Inr rm'"
      "length rm' = ?n" "\<forall>r < ?n. row_best ?es r (rm' ! r)"
    by auto
  have "is_argmax (entry_sum ?es r) (snd (coo_shape m)) (map snd rm' ! r)
        \<and> (\<forall>c d. (r, c, d) \<in> set ?es \<longrightarrow> d \<le> entry_sum ?es r (map snd rm' ! r))" if "r < ?n" for r
  proof -
    obtain mx c where mc: "rm' ! r = (mx, c)" by (cases "rm' ! r")
    have rb: "row_best ?es r (mx, c)" using rm'(3) that mc by auto
    have "is_argmax (entry_sum ?es r) (snd (coo_shape m)) c \<and> entry_sum ?es r c = mx"
      using srt _ _ rb by (rule row_best_is_argmax) (use assms in \<open>auto simp: canonical_def\<close>)
    moreover have "\<forall>c' d. (r, c', d) \<in> set ?es \<longrightarrow> d \<le> mx" using rb by (auto simp: row_best_def)
    ultimately show ?thesis using that rm'(2) mc by simp
  qed
  then show ?thesis using rm'(1,2) by (simp add: sparse_row_argmax_def z)
qed

lemma entry_sum_mset:
  "entry_sum xs r c
   = sum_mset (image_mset (\<lambda>(r', c', d). if r' = r \<and> c' = c then d else 0) (mset xs))"
proof (induction xs)
  case Nil
  then show ?case by (simp add: entry_sum_Nil)
next
  case (Cons e xs)
  obtain r' c' d where e: "e = (r', c', d)" by (cases e)
  show ?case unfolding e entry_sum_Cons Cons.IH by simp
qed

lemma entry_sum_perm: "mset es = mset es' \<Longrightarrow> entry_sum es r c = entry_sum es' r c"
  by (simp only: entry_sum_mset)

lemma entry_sum_ones:
  "length v1 = length v2 \<Longrightarrow>
   entry_sum (zip v1 (zip v2 (replicate (length v1) 1))) r c = count_list (zip v1 v2) (r, c)"
  by (induction v1 v2 rule: list_induct2) (auto simp: entry_sum_Nil entry_sum_Cons)

lemma coords_ones:
  "length v1 = length v2 \<Longrightarrow>
   (\<lambda>(r, c, d). (r, c)) ` set (zip v1 (zip v2 (replicate (length v1) (1::nat)))) = set (zip v1 v2)"
  by (induction v1 v2 rule: list_induct2) auto

lemma entry_key_eq: "(\<lambda>(r, c, d). (c, r)) = entry_key"
  by (auto simp: entry_key_def fun_eq_iff)

lemma zip_unzip3:
  "zip (map fst es) (zip (map (fst \<circ> snd) es) (map (snd \<circ> snd) es)) = es"
  by (induction es) auto

lemma contingency_sparse:
  assumes "contingency_table vol1 vol2 True = Inr t"
  shows "\<exists>m. t = Sparse m \<and> canonical m
           \<and> coo_shape m = (Max (set (data vol1)) + 1, Max (set (data vol2)) + 1)
           \<and> length (data vol1) = length (data vol2) \<and> data vol1 \<noteq> []
           \<and> (\<forall>r c. entry_sum (coo_entries m) r c = count_list (zip (data vol1) (data vol2)) (r, c))
           \<and> (\<forall>e \<in> set (coo_entries m). snd (snd e) > 0)
           \<and> (\<lambda>(r, c, d). (r, c)) ` set (coo_entries m) = set (zip (data vol1) (data vol2))"
proof -
  let ?va = "data vol1" and ?vb = "data vol2"
  have len: "length ?va = length ?vb" and ne: "?va \<noteq> []"
    using assms by (auto simp: contingency_table_def reshape_flat_def Let_def split: if_splits)
  let ?ones = "zip ?va (zip ?vb (replicate (length ?va) (1::nat)))"
  let ?raw = "\<lparr>coo_shape = (Max (set ?va) + 1, Max (set ?vb) + 1), coo_row = ?va, coo_col = ?vb,
               coo_data = replicate (length ?va) 1\<rparr>"
  let ?es = "sum_adjacent (sort_key entry_key ?ones)"
  define m where "m = sum_duplicates ?raw"
  have t: "t = Sparse m"
    using assms len ne by (simp add: contingency_table_def reshape_flat_def Let_def m_def)
  have es: "coo_entries m = ?es"
    unfolding m_def sum_duplicates_def Let_def entry_key_eq coo_entries_def
    by (simp add: zip_unzip3)
  have shape: "coo_shape m = (Max (set ?va) + 1, Max (set ?vb) + 1)"
    by (simp add: m_def sum_duplicates_def Let_def)
  have lens: "length (coo_row m) = length (coo_col m)" "length (coo_col m) = length (coo_data m)"
    by (simp_all add: m_def sum_duplicates_def Let_def)
  have srt: "sorted_wrt (<) (map entry_key ?es)"
    by (intro sorted_sum_adjacent sorted_sort_key)
  have coords: "(\<lambda>(r, c, d). (r, c)) ` set ?es = set (zip ?va ?vb)"
    by (simp only: coords_sum_adjacent set_sort coords_ones[OF len])
  have sum: "entry_sum ?es r c = count_list (zip ?va ?vb) (r, c)" for r c
  proof -
    have "entry_sum ?es r c = entry_sum (sort_key entry_key ?ones) r c"
      by (rule entry_sum_sum_adjacent)
    also have "\<dots> = entry_sum ?ones r c" by (rule entry_sum_perm) simp
    also have "\<dots> = count_list (zip ?va ?vb) (r, c)" using len by (rule entry_sum_ones)
    finally show ?thesis .
  qed
  have pos: "\<forall>e \<in> set ?es. snd (snd e) > 0"
  proof (rule positive_sum_adjacent)
    show "\<forall>e \<in> set (sort_key entry_key ?ones). 0 < snd (snd e)"
      by (auto simp: set_zip)
  qed
  have bounds: "fst e < Max (set ?va) + 1 \<and> fst (snd e) < Max (set ?vb) + 1" if "e \<in> set ?es" for e
  proof -
    obtain r c d where e: "e = (r, c, d)" by (cases e)
    then have "(r, c) \<in> (\<lambda>(r, c, d). (r, c)) ` set ?es" using that by force
    then have "(r, c) \<in> set (zip ?va ?vb)" using coords by simp
    then have "r \<in> set ?va" "c \<in> set ?vb" by (auto dest: set_zip_leftD set_zip_rightD)
    then have "r \<le> Max (set ?va)" "c \<le> Max (set ?vb)" by simp_all
    then show ?thesis using e by simp
  qed
  have "0 < snd (coo_shape m)" by (simp add: shape)
  moreover have "\<forall>e \<in> set (coo_entries m). fst e < fst (coo_shape m) \<and> fst (snd e) < snd (coo_shape m)"
    unfolding es shape using bounds by simp
  moreover have "sorted_wrt (<) (map entry_key (coo_entries m))" unfolding es by (rule srt)
  ultimately have can: "canonical m" unfolding canonical_def using lens by blast
  have 1: "\<forall>r c. entry_sum (coo_entries m) r c = count_list (zip ?va ?vb) (r, c)"
    unfolding es using sum by blast
  have 2: "\<forall>e \<in> set (coo_entries m). snd (snd e) > 0" unfolding es by (rule pos)
  have 3: "(\<lambda>(r, c, d). (r, c)) ` set (coo_entries m) = set (zip ?va ?vb)"
    unfolding es by (rule coords)
  show ?thesis
    by (intro exI[of _ m] conjI t can shape len ne 1 2 3)
qed

lemma contingency_dense:
  assumes "contingency_table vol1 vol2 False = Inr t"
  shows "\<exists>rows. t = Dense rows \<and> length rows = Max (set (data vol1)) + 1
           \<and> (\<forall>r < length rows. length (rows ! r) = Max (set (data vol2)) + 1)
           \<and> (\<forall>r < Max (set (data vol1)) + 1. \<forall>c < Max (set (data vol2)) + 1.
                 rows ! r ! c = count_list (zip (data vol1) (data vol2)) (r, c))"
proof -
  let ?va = "data vol1" and ?vb = "data vol2"
  have len: "length ?va = length ?vb" and ne: "?va \<noteq> []"
    using assms by (auto simp: contingency_table_def reshape_flat_def Let_def split: if_splits)
  define R where "R = Max (set ?va) + 1"
  define C where "C = Max (set ?vb) + 1"
  define z where "z = replicate R (replicate C (0::nat))"
  define rows where "rows = foldl add_at z (zip ?va ?vb)"
  have t: "t = Dense rows"
    using assms len ne
    by (simp add: contingency_table_def reshape_flat_def Let_def rows_def z_def R_def C_def
        del: replicate_Suc replicate.simps)
  have zsh: "length z = R" "\<And>i. i < R \<Longrightarrow> length (z ! i) = C" "\<And>i j. i < R \<Longrightarrow> j < C \<Longrightarrow> z ! i ! j = 0"
    by (simp_all add: z_def)
  have sh: "length rows = R" "\<forall>i < R. length (rows ! i) = C"
    using foldl_add_at_shape[of z "zip ?va ?vb"] zsh by (simp_all add: rows_def)
  have inb: "\<forall>p \<in> set (zip ?va ?vb). fst p < length z \<and> snd p < length (z ! fst p)"
  proof
    fix p assume p: "p \<in> set (zip ?va ?vb)"
    obtain a b where ab: "p = (a, b)" by (cases p)
    then have "a \<in> set ?va" "b \<in> set ?vb" using p by (auto dest: set_zip_leftD set_zip_rightD)
    then have "a \<le> Max (set ?va)" "b \<le> Max (set ?vb)" by simp_all
    then have "a < R" "b < C" by (simp_all add: R_def C_def)
    then show "fst p < length z \<and> snd p < length (z ! fst p)" using ab zsh by simp
  qed
  have val: "rows ! r ! c = count_list (zip ?va ?vb) (r, c)" if "r < R" "c < C" for r c
  proof -
    have "foldl add_at z (zip ?va ?vb) ! r ! c = z ! r ! c + count_list (zip ?va ?vb) (r, c)"
    proof (rule foldl_add_at_nth)
      show "\<forall>p\<in>set (zip ?va ?vb). fst p < length z \<and> snd p < length (z ! fst p)" by (rule inb)
      show "r < length z" using that zsh by simp
      show "c < length (z ! r)" using that zsh by simp
    qed
    then show ?thesis using that zsh by (simp add: rows_def)
  qed
  show ?thesis using t sh val unfolding R_def C_def by (intro exI[of _ rows]) simp
qed

lemma table_count_sparse: "table_count (Sparse m) r c = entry_sum (coo_entries m) r c"
  by (simp add: table_count_def entry_sum_def)

lemma row_argmax_contingency:
  assumes "contingency_table vol1 vol2 sparse = Inr t"
  shows "\<exists>cols. row_argmax t = Inr cols \<and> length cols = fst (table_shape t)
          \<and> (\<forall>r < fst (table_shape t). is_argmax (table_count t r) (snd (table_shape t)) (cols ! r))
          \<and> table_shape t = (Max (set (data vol1)) + 1, Max (set (data vol2)) + 1)
          \<and> (\<forall>r < fst (table_shape t). \<forall>c < snd (table_shape t).
                table_count t r c = count_list (zip (data vol1) (data vol2)) (r, c))"
proof (cases sparse)
  case True
  then obtain m where m: "t = Sparse m" "canonical m"
      "coo_shape m = (Max (set (data vol1)) + 1, Max (set (data vol2)) + 1)"
      "\<forall>r c. entry_sum (coo_entries m) r c = count_list (zip (data vol1) (data vol2)) (r, c)"
    using contingency_sparse[of vol1 vol2 t] assms by auto
  obtain cs where cs: "sparse_row_argmax (coo_col m) (coo_row m) (coo_data m) (fst (coo_shape m)) = Inr cs"
      "length cs = fst (coo_shape m)"
      "\<forall>r < fst (coo_shape m). is_argmax (entry_sum (coo_entries m) r) (snd (coo_shape m)) (cs ! r)"
    using sparse_row_argmax_canonical[OF m(2)] by blast
  have "table_count t r = entry_sum (coo_entries m) r" for r
    by (rule ext) (simp add: m(1) table_count_sparse)
  then show ?thesis using m cs by (intro exI[of _ cs]) (simp add: row_argmax_def table_shape_def)
next
  case False
  then obtain rows where rows: "t = Dense rows" "length rows = Max (set (data vol1)) + 1"
      "\<forall>r < length rows. length (rows ! r) = Max (set (data vol2)) + 1"
      "\<forall>r < Max (set (data vol1)) + 1. \<forall>c < Max (set (data vol2)) + 1.
                 rows ! r ! c = count_list (zip (data vol1) (data vol2)) (r, c)"
    using contingency_dense[of vol1 vol2 t] assms by auto
  have ne: "\<forall>row \<in> set rows. row \<noteq> []"
  proof
    fix row assume "row \<in> set rows"
    then obtain i where "i < length rows" "row = rows ! i" by (auto simp: in_set_conv_nth)
    then have "length row = Max (set (data vol2)) + 1" using rows(3) by simp
    then show "row \<noteq> []" by auto
  qed
  obtain cs where cs: "np_argmax_axis1 rows = Inr cs" "length cs = length rows"
      "\<forall>r<length rows. is_argmax (\<lambda>j. rows ! r ! j) (length (rows ! r)) (cs ! r)"
    using np_argmax_axis1_spec[OF ne] by blast
  have hd: "length (hd rows) = Max (set (data vol2)) + 1" "rows \<noteq> []"
    using rows(2,3) by (cases rows; force)+
  have "table_count t r = (\<lambda>j. rows ! r ! j)" for r
    by (rule ext) (simp add: rows(1) table_count_def)
  then show ?thesis using rows cs hd
    by (intro exI[of _ cs]) (simp add: row_argmax_def table_shape_def)
qed

text \<open>
  C8. For every overlap table that \<^verbatim>\<open>contingency_table\<close> builds, dense or sparse,
  \<^verbatim>\<open>row_argmax\<close> returns one column per row; the column of a row holds the maximum
  count of the row, and every lower column holds a strictly smaller count, so among
  tied columns the lowest one is returned. The counts of the table are the numbers of
  positions at which the two volumes carry the row label and the column label.
\<close>

theorem row_argmax_lowest_maximum:
  assumes "contingency_table vol1 vol2 sparse = Inr t"
    and "r < fst (table_shape t)"
  shows "\<exists>cols. row_argmax t = Inr cols \<and> matrix_argmax t 1 = Inr cols
          \<and> length cols = fst (table_shape t)
          \<and> cols ! r < snd (table_shape t)
          \<and> (\<forall>c < snd (table_shape t). table_count t r c \<le> table_count t r (cols ! r))
          \<and> (\<forall>c < cols ! r. table_count t r c < table_count t r (cols ! r))
          \<and> (\<forall>c < snd (table_shape t).
                table_count t r c = count_list (zip (data vol1) (data vol2)) (r, c))"
proof -
  obtain cols where cols: "row_argmax t = Inr cols" "length cols = fst (table_shape t)"
      "\<forall>r < fst (table_shape t). is_argmax (table_count t r) (snd (table_shape t)) (cols ! r)"
      "\<forall>r < fst (table_shape t). \<forall>c < snd (table_shape t).
                table_count t r c = count_list (zip (data vol1) (data vol2)) (r, c)"
    using row_argmax_contingency[OF assms(1)] by blast
  have "is_argmax (table_count t r) (snd (table_shape t)) (cols ! r)"
    using cols(3) assms(2) by blast
  then have "cols ! r < snd (table_shape t)"
      "\<forall>c < snd (table_shape t). table_count t r c \<le> table_count t r (cols ! r)"
      "\<forall>c < cols ! r. table_count t r c < table_count t r (cols ! r)"
    unfolding is_argmax_def by blast+
  moreover have "matrix_argmax t 1 = Inr cols" using cols(1) by (simp add: matrix_argmax_def)
  ultimately show ?thesis using cols(1,2,4) assms(2) by blast
qed

theorem row_argmax_lowest_maximum_witness:
  "contingency_table \<lparr>shape = [1, 1, 3], data = [1, 1, 2]\<rparr> \<lparr>shape = [1, 1, 3], data = [2, 1, 1]\<rparr> True
     = Inr (Sparse \<lparr>coo_shape = (3, 3), coo_row = [1, 2, 1], coo_col = [1, 1, 2],
                    coo_data = [1, 1, 1]\<rparr>)
   \<and> row_argmax (Sparse \<lparr>coo_shape = (3, 3), coo_row = [1, 2, 1], coo_col = [1, 1, 2],
                    coo_data = [1, 1, 1]\<rparr>) = Inr [0, 1, 1]
   \<and> table_count (Sparse \<lparr>coo_shape = (3, 3), coo_row = [1, 2, 1], coo_col = [1, 1, 2],
                    coo_data = [1, 1, 1]\<rparr>) 1 2
       \<le> table_count (Sparse \<lparr>coo_shape = (3, 3), coo_row = [1, 2, 1], coo_col = [1, 1, 2],
                    coo_data = [1, 1, 1]\<rparr>) 1 ([0, 1, 1] ! 1)
   \<and> table_count (Sparse \<lparr>coo_shape = (3, 3), coo_row = [1, 2, 1], coo_col = [1, 1, 2],
                    coo_data = [1, 1, 1]\<rparr>) 1 2 = 1"
proof -
  let ?t = "Sparse \<lparr>coo_shape = (3, 3), coo_row = [1, 2, 1], coo_col = [1, 1, 2],
                    coo_data = [1, 1, 1]\<rparr>"
  have h1: "contingency_table \<lparr>shape = [1, 1, 3], data = [1, 1, 2]\<rparr>
              \<lparr>shape = [1, 1, 3], data = [2, 1, 1]\<rparr> True = Inr ?t"
    by code_simp
  have h2: "1 < fst (table_shape ?t)" by code_simp
  have h3: "2 < snd (table_shape ?t)" by code_simp
  have a: "row_argmax ?t = Inr [0, 1, 1]" by code_simp
  have b: "table_count ?t 1 2 = 1" by code_simp
  from row_argmax_lowest_maximum[OF h1 h2] obtain cols where
    c: "row_argmax ?t = Inr cols"
       "\<forall>c < snd (table_shape ?t). table_count ?t 1 c \<le> table_count ?t 1 (cols ! 1)"
    by blast
  have "cols = [0, 1, 1]" using a c(1) by simp
  then have "table_count ?t 1 2 \<le> table_count ?t 1 ([0, 1, 1] ! 1)" using c(2) h3 by blast
  then show ?thesis using h1 a b by blast
qed

section \<open>Global reconciliation\<close>

lemma merge_invD1: "merge_inv m S \<Longrightarrow> m k = Some r \<Longrightarrow> m r = None \<or> m r = Some r"
  unfolding merge_inv_def by blast

lemma merge_invD2: "merge_inv m S \<Longrightarrow> m k = Some r \<Longrightarrow> k \<in> S r"
  unfolding merge_inv_def by blast

lemma merge_invD4: "merge_inv m S \<Longrightarrow> x \<in> S r \<Longrightarrow> m r = None \<or> m r = Some r \<Longrightarrow> m x = Some r"
  unfolding merge_inv_def by blast

lemma rep_of_Some: "m x = Some r \<Longrightarrow> rep_of m x = r"
  by (simp add: rep_of_def)

lemma rep_of_None: "m x = None \<Longrightarrow> rep_of m x = x"
  by (simp add: rep_of_def)

lemma rep_of_top: "merge_inv m S \<Longrightarrow> m (rep_of m x) = None \<or> m (rep_of m x) = Some (rep_of m x)"
  by (cases "m x") (auto simp: rep_of_Some rep_of_None dest: merge_invD1)

lemma rep_of_idem: "merge_inv m S \<Longrightarrow> rep_of m (rep_of m x) = rep_of m x"
  using rep_of_top[of m S x] by (auto simp: rep_of_Some rep_of_None)

lemma rep_class_eq:
  assumes "merge_inv m S"
  shows "insert (rep_of m a) (S (rep_of m a)) = {k. rep_of m k = rep_of m a}"
proof (intro set_eqI iffI)
  fix k assume "k \<in> insert (rep_of m a) (S (rep_of m a))"
  then consider "k = rep_of m a" | "k \<in> S (rep_of m a)" by auto
  then have "rep_of m k = rep_of m a"
  proof cases
    case 1 then show ?thesis using rep_of_idem[OF assms] by simp
  next
    case 2
    then have "m k = Some (rep_of m a)" using rep_of_top[OF assms, of a] by (intro merge_invD4[OF assms])
    then show ?thesis by (rule rep_of_Some)
  qed
  then show "k \<in> {k. rep_of m k = rep_of m a}" by simp
next
  fix k assume "k \<in> {k. rep_of m k = rep_of m a}"
  then have r: "rep_of m k = rep_of m a" by simp
  show "k \<in> insert (rep_of m a) (S (rep_of m a))"
  proof (cases "m k")
    case None then show ?thesis using r by (simp add: rep_of_None)
  next
    case (Some q)
    then have "q = rep_of m a" using r by (simp add: rep_of_Some)
    then show ?thesis using Some merge_invD2[OF assms] by simp
  qed
qed

lemma merge_inv_step:
  fixes m :: "nat \<Rightarrow> nat option" and S :: "nat \<Rightarrow> nat set" and a b :: nat
  assumes "merge_inv m S"
  defines "T \<equiv> insert (rep_of m a) (S (rep_of m a))"
  defines "m' \<equiv> (\<lambda>k. if k \<in> T then Some (rep_of m b) else m k)"
  defines "S' \<equiv> (\<lambda>r. if r = rep_of m b then S (rep_of m b) \<union> T else S r)"
  shows "merge_inv m' S'" and "rep_of m' x = (if rep_of m x = rep_of m a then rep_of m b else rep_of m x)"
proof -
  have T: "k \<in> T \<longleftrightarrow> rep_of m k = rep_of m a" for k
    unfolding T_def rep_class_eq[OF assms(1)] by simp
  have topb: "m (rep_of m b) = None \<or> m (rep_of m b) = Some (rep_of m b)" using assms(1) by (rule rep_of_top)
  show "rep_of m' x = (if rep_of m x = rep_of m a then rep_of m b else rep_of m x)"
  proof (cases "x \<in> T")
    case True
    then have "m' x = Some (rep_of m b)" by (simp add: m'_def)
    then show ?thesis using True T by (simp add: rep_of_Some)
  next
    case False
    then have "m' x = m x" by (simp add: m'_def)
    then have "rep_of m' x = rep_of m x" by (simp add: rep_of_def)
    then show ?thesis using False T by simp
  qed
  have m'top: "m' (rep_of m b) = None \<or> m' (rep_of m b) = Some (rep_of m b)"
    using topb by (simp add: m'_def)
  have i1: "m' r = None \<or> m' r = Some r" if "m' k = Some r" for k r
  proof (cases "k \<in> T")
    case True then show ?thesis using that m'top by (simp add: m'_def)
  next
    case False
    then have mk: "m k = Some r" using that by (simp add: m'_def)
    then have mr: "m r = None \<or> m r = Some r" by (rule merge_invD1[OF assms(1)])
    have "rep_of m k = r" using mk by (rule rep_of_Some)
    then have "r \<noteq> rep_of m a" using False T by auto
    moreover have "rep_of m r = r" using mr by (auto simp: rep_of_Some rep_of_None)
    ultimately have "r \<notin> T" using T by simp
    then show ?thesis using mr by (simp add: m'_def)
  qed
  have i2: "k \<in> S' r" if "m' k = Some r" for k r
  proof (cases "k \<in> T")
    case True then show ?thesis using that by (simp add: m'_def S'_def)
  next
    case False
    then have "m k = Some r" using that by (simp add: m'_def)
    then have "k \<in> S r" by (rule merge_invD2[OF assms(1)])
    then show ?thesis by (auto simp: S'_def)
  qed
  have i4: "m' x = Some r" if "x \<in> S' r" "m' r = None \<or> m' r = Some r" for r x
  proof (cases "x \<in> T")
    case True
    show ?thesis
    proof (cases "r = rep_of m b")
      case True with \<open>x \<in> T\<close> show ?thesis by (simp add: m'_def)
    next
      case False
      then have xs: "x \<in> S r" using that(1) by (simp add: S'_def)
      have "r \<notin> T" using that(2) False by (auto simp: m'_def split: if_splits)
      then have "m r = None \<or> m r = Some r" using that(2) by (simp add: m'_def)
      then have "m x = Some r" using xs by (intro merge_invD4[OF assms(1)])
      then have "rep_of m x = r" by (rule rep_of_Some)
      then have "r = rep_of m a" using True T by simp
      then have "r \<in> T" by (simp add: T_def)
      with \<open>r \<notin> T\<close> show ?thesis by simp
    qed
  next
    case False
    then have xs: "x \<in> S r" using that(1) by (auto simp: S'_def split: if_splits)
    have mr: "m r = None \<or> m r = Some r"
    proof (cases "r \<in> T")
      case True
      then have "r = rep_of m b" using that(2) by (auto simp: m'_def)
      then show ?thesis using topb by simp
    next
      case False then show ?thesis using that(2) by (simp add: m'_def)
    qed
    then have "m x = Some r" using xs by (intro merge_invD4[OF assms(1)])
    then show ?thesis using False by (simp add: m'_def)
  qed
  show "merge_inv m' S'" unfolding merge_inv_def using i1 i2 i4 by blast
qed

lemma members_of_set_add:
  "map_of s k \<noteq> None \<Longrightarrow> members_of (set_add s k x) r = (if r = k then insert x (members_of s k) else members_of s r)"
  by (auto simp: members_of_def set_add_def update_conv' split: option.splits)

lemma set_add_key: "map_of s k \<noteq> None \<Longrightarrow> map_of (set_add s k x) k \<noteq> None"
  by (auto simp: set_add_def update_conv' split: option.splits)

lemma fold_redirect:
  assumes "map_of s0 b \<noteq> None"
  shows "map_of (fst (fold (\<lambda>tbody (body1body2, body2body1).
                     (AList.update tbody b body1body2, set_add body2body1 b tbody)) ts (m0, s0))) k
         = (if k \<in> set ts then Some b else map_of m0 k)
       \<and> members_of (snd (fold (\<lambda>tbody (body1body2, body2body1).
                     (AList.update tbody b body1body2, set_add body2body1 b tbody)) ts (m0, s0))) r
         = (if r = b then members_of s0 b \<union> set ts else members_of s0 r)"
  using assms
proof (induction ts arbitrary: m0 s0)
  case Nil
  then show ?case by simp
next
  case (Cons t ts)
  have k: "map_of (set_add s0 b t) b \<noteq> None" using Cons.prems by (rule set_add_key)
  show ?case
    using Cons.IH[OF k, of "AList.update t b m0"] Cons.prems
    by (auto simp: update_conv' members_of_set_add)
qed

lemma merge_step_sem:
  assumes "merge_step (b12, b21) (a, b) = (b12', b21')"
  defines "a' \<equiv> resolve b12 a" and "b' \<equiv> resolve b12 b"
  defines "T \<equiv> insert a' (members_of b21 a')"
  shows "map_of b12' k = (if k \<in> T then Some b' else map_of b12 k)"
    and "members_of b21' r = (if r = b' then members_of b21 b' \<union> T else members_of b21 r)"
proof -
  define s1 where "s1 = (case map_of b21 b' of None \<Rightarrow> AList.update b' [] b21 | Some members \<Rightarrow> b21)"
  define s2 where "s2 = set_add s1 b' a'"
  define m1 where "m1 = AList.update a' b' b12"
  have k1: "map_of s1 b' \<noteq> None" by (auto simp: s1_def update_conv' split: option.splits)
  have mem1: "members_of s1 r = members_of b21 r" for r
    by (auto simp: s1_def members_of_def update_conv' split: option.splits)
  have k2: "map_of s2 b' \<noteq> None" unfolding s2_def using k1 by (rule set_add_key)
  have mem2: "members_of s2 r = (if r = b' then insert a' (members_of b21 b') else members_of b21 r)" for r
    unfolding s2_def by (simp add: members_of_set_add[OF k1] mem1)
  have step: "(b12', b21') = (case map_of s2 a' of None \<Rightarrow> (m1, s2)
         | Some tbodies \<Rightarrow> fold (\<lambda>tbody (body1body2, body2body1).
                     (AList.update tbody b' body1body2, set_add body2body1 b' tbody)) tbodies (m1, s2))"
    unfolding m1_def s2_def s1_def a'_def b'_def
    using assms(1) by (simp add: merge_step_def Let_def)
  show "map_of b12' k = (if k \<in> T then Some b' else map_of b12 k)"
  proof (cases "map_of s2 a'")
    case None
    then have "members_of s2 a' = {}" by (simp add: members_of_def)
    then have "a' \<noteq> b'" "members_of b21 a' = {}" using mem2[of a'] by (auto split: if_splits)
    then show ?thesis using step None by (auto simp: m1_def T_def update_conv')
  next
    case (Some ts)
    then have ts: "set ts = members_of s2 a'" by (simp add: members_of_def)
    have "map_of b12' k = (if k \<in> set ts then Some b' else map_of m1 k)"
      using step Some fold_redirect[OF k2, of ts m1 k] by (metis fst_conv option.simps(5))
    then show ?thesis using ts mem2[of a'] by (auto simp: m1_def T_def update_conv')
  qed
  show "members_of b21' r = (if r = b' then members_of b21 b' \<union> T else members_of b21 r)"
  proof (cases "map_of s2 a'")
    case None
    then have "members_of s2 a' = {}" by (simp add: members_of_def)
    then have "a' \<noteq> b'" "members_of b21 a' = {}" using mem2[of a'] by (auto split: if_splits)
    then show ?thesis using step None mem2[of r] by (auto simp: T_def)
  next
    case (Some ts)
    then have ts: "set ts = members_of s2 a'" by (simp add: members_of_def)
    have "members_of b21' r = (if r = b' then members_of s2 b' \<union> set ts else members_of s2 r)"
      using step Some fold_redirect[OF k2, of ts m1 _ r] by (metis snd_conv option.simps(5))
    then show ?thesis using ts mem2[of a'] mem2[of r] mem2[of b'] by (auto simp: T_def)
  qed
qed

lemma resolve_rep_of: "resolve b12 x = rep_of (map_of b12) x"
  by (simp add: resolve_def rep_of_def)

lemma apply_map_rep_of: "apply_map m x = rep_of (map_of m) x"
  by (simp add: apply_map_def rep_of_def)

lemma merge_step_inv:
  assumes "merge_inv (map_of b12) (members_of b21)"
    and "merge_step (b12, b21) (a, b) = (b12', b21')"
  shows "merge_inv (map_of b12') (members_of b21')"
    and "rep_of (map_of b12') x =
         (if rep_of (map_of b12) x = rep_of (map_of b12) a then rep_of (map_of b12) b
          else rep_of (map_of b12) x)"
proof -
  let ?m = "map_of b12" and ?S = "members_of b21"
  have m': "map_of b12' = (\<lambda>k. if k \<in> insert (rep_of ?m a) (?S (rep_of ?m a))
                               then Some (rep_of ?m b) else ?m k)"
    by (rule ext) (simp add: merge_step_sem(1)[OF assms(2)] resolve_rep_of)
  have S': "members_of b21' = (\<lambda>r. if r = rep_of ?m b
                 then ?S (rep_of ?m b) \<union> insert (rep_of ?m a) (?S (rep_of ?m a)) else ?S r)"
    by (rule ext) (simp add: merge_step_sem(2)[OF assms(2)] resolve_rep_of)
  show "merge_inv (map_of b12') (members_of b21')"
    unfolding m' S' by (rule merge_inv_step(1)[OF assms(1)])
  show "rep_of (map_of b12') x =
         (if rep_of ?m x = rep_of ?m a then rep_of ?m b else rep_of ?m x)"
    unfolding m' by (rule merge_inv_step(2)[OF assms(1)])
qed

lemma connected_refl: "(x, x) \<in> connected es"
  by (simp add: connected_def)

lemma connected_sym: "(x, y) \<in> connected es \<Longrightarrow> (y, x) \<in> connected es"
  unfolding connected_def using sym_rtrancl[OF sym_Un_converse] by (meson symD)

lemma connected_trans:
  "(x, y) \<in> connected es \<Longrightarrow> (y, z) \<in> connected es \<Longrightarrow> (x, z) \<in> connected es"
  unfolding connected_def by (rule rtrancl_trans)

lemma connected_edge: "(a, b) \<in> set es \<Longrightarrow> (a, b) \<in> connected es"
  unfolding connected_def by blast

lemma connected_snoc: "(x, y) \<in> connected es \<Longrightarrow> (x, y) \<in> connected (es @ [e])"
proof -
  have "connected es \<subseteq> connected (es @ [e])"
    unfolding connected_def by (rule rtrancl_mono) auto
  then show "(x, y) \<in> connected es \<Longrightarrow> (x, y) \<in> connected (es @ [e])" by blast
qed

lemma rep_of_in:
  "rep_of m x = x \<or> m x = Some (rep_of m x)"
  by (cases "m x") (simp_all add: rep_of_def)

lemma reconcile_state:
  assumes "foldl merge_step ([], []) es = (b12, b21)"
  shows "merge_inv (map_of b12) (members_of b21)
       \<and> (\<forall>x. (x, rep_of (map_of b12) x) \<in> connected es)
       \<and> (\<forall>u v. (u, v) \<in> set es \<longrightarrow> rep_of (map_of b12) u = rep_of (map_of b12) v)
       \<and> (\<forall>k r. map_of b12 k = Some r \<longrightarrow> k \<in> endpoints es \<and> r \<in> endpoints es)
       \<and> (\<forall>r x. x \<in> members_of b21 r \<longrightarrow> x \<in> endpoints es)"
  using assms
proof (induction es arbitrary: b12 b21 rule: rev_induct)
  case Nil
  then show ?case by (simp add: merge_inv_def members_of_def rep_of_def connected_refl)
next
  case (snoc e es)
  obtain a b where e: "e = (a, b)" by (cases e)
  obtain m0 s0 where st: "foldl merge_step ([], []) es = (m0, s0)" by (cases "foldl merge_step ([], []) es")
  note IH = snoc.IH[OF st]
  have step: "merge_step (m0, s0) (a, b) = (b12, b21)" using snoc.prems st e by simp
  let ?r = "rep_of (map_of m0)" and ?r' = "rep_of (map_of b12)"
  have inv0: "merge_inv (map_of m0) (members_of s0)" using IH by simp
  have r': "?r' x = (if ?r x = ?r a then ?r b else ?r x)" for x
    by (rule merge_step_inv(2)[OF inv0 step])
  have c0: "(x, ?r x) \<in> connected (es @ [e])" for x using IH by (simp add: connected_snoc)
  have ab: "(a, b) \<in> connected (es @ [e])" by (rule connected_edge) (simp add: e)
  have E0: "endpoints es \<subseteq> endpoints (es @ [e])" by (auto simp: endpoints_def)
  have Ea: "a \<in> endpoints (es @ [e])" and Eb: "b \<in> endpoints (es @ [e])"
    by (auto simp: endpoints_def e image_iff)
  have Er: "?r x \<in> endpoints (es @ [e])" if "x \<in> endpoints (es @ [e])" for x
    using rep_of_in[of "map_of m0" x] that IH E0 by auto
  have 1: "merge_inv (map_of b12) (members_of b21)" by (rule merge_step_inv(1)[OF inv0 step])
  have 2: "(x, ?r' x) \<in> connected (es @ [e])" for x
  proof (cases "?r x = ?r a")
    case True
    have "(x, ?r a) \<in> connected (es @ [e])" using c0[of x] True by simp
    then have "(x, a) \<in> connected (es @ [e])"
      using connected_sym[OF c0[of a]] by (rule connected_trans)
    then have "(x, b) \<in> connected (es @ [e])" using ab by (rule connected_trans)
    then have "(x, ?r b) \<in> connected (es @ [e])" using c0[of b] by (rule connected_trans)
    then show ?thesis using True by (simp add: r')
  next
    case False then show ?thesis using c0[of x] by (simp add: r')
  qed
  have 3: "?r' u = ?r' v" if "(u, v) \<in> set (es @ [e])" for u v
  proof (cases "(u, v) \<in> set es")
    case True
    then have "?r u = ?r v" using IH by blast
    then show ?thesis by (simp add: r')
  next
    case False
    then have "u = a" "v = b" using that e by auto
    then show ?thesis by (simp add: r')
  qed
  have 4: "k \<in> endpoints (es @ [e]) \<and> r \<in> endpoints (es @ [e])" if "map_of b12 k = Some r" for k r
  proof -
    have mk: "map_of b12 k = (if k \<in> insert (?r a) (members_of s0 (?r a)) then Some (?r b) else map_of m0 k)"
      using merge_step_sem(1)[OF step, of k] by (simp add: resolve_rep_of)
    show ?thesis
    proof (cases "k \<in> insert (?r a) (members_of s0 (?r a))")
      case True
      then have "r = ?r b" using mk that by simp
      moreover have "k \<in> endpoints (es @ [e])" using True Er[OF Ea] IH E0 by auto
      ultimately show ?thesis using Er[OF Eb] by simp
    next
      case False
      then have "map_of m0 k = Some r" using mk that by simp
      then show ?thesis using IH E0 by blast
    qed
  qed
  have 5: "x \<in> endpoints (es @ [e])" if "x \<in> members_of b21 r" for r x
  proof -
    have "members_of b21 r = (if r = ?r b then members_of s0 (?r b) \<union> insert (?r a) (members_of s0 (?r a))
                              else members_of s0 r)"
      using merge_step_sem(2)[OF step, of r] by (simp add: resolve_rep_of)
    then have "x \<in> members_of s0 (?r b) \<or> x = ?r a \<or> x \<in> members_of s0 (?r a) \<or> x \<in> members_of s0 r"
      using that by (auto split: if_splits)
    then show ?thesis using IH E0 Er[OF Ea] by blast
  qed
  show ?case using 1 2 3 4 5 by blast
qed

lemma reconcile_inv:
  "\<exists>b21. merge_inv (map_of (reconcile es)) (members_of b21)
       \<and> (\<forall>x. (x, rep_of (map_of (reconcile es)) x) \<in> connected es)
       \<and> (\<forall>u v. (u, v) \<in> set es \<longrightarrow> rep_of (map_of (reconcile es)) u = rep_of (map_of (reconcile es)) v)
       \<and> (\<forall>k r. map_of (reconcile es) k = Some r \<longrightarrow> k \<in> endpoints es \<and> r \<in> endpoints es)"
proof -
  obtain b12 b21 where st: "foldl merge_step ([], []) es = (b12, b21)"
    by (cases "foldl merge_step ([], []) es")
  then have "reconcile es = b12" by (simp add: reconcile_def)
  then show ?thesis using reconcile_state[OF st] by blast
qed


text \<open>
  C7. The equivalence map that reconciliation produces is idempotent: every value of
  the map is either no key of the map or a key that the map sends to itself, and
  applying the map twice to any label gives the same as applying it once.
\<close>

theorem reconcile_idempotent:
  "(\<forall>k r. map_of (reconcile merge_list) k = Some r \<longrightarrow>
           map_of (reconcile merge_list) r = None \<or> map_of (reconcile merge_list) r = Some r)
   \<and> (\<forall>x. apply_map (reconcile merge_list) (apply_map (reconcile merge_list) x)
           = apply_map (reconcile merge_list) x)"
proof -
  obtain b21 where inv: "merge_inv (map_of (reconcile merge_list)) (members_of b21)"
    using reconcile_inv[of merge_list] by blast
  have "map_of (reconcile merge_list) r = None \<or> map_of (reconcile merge_list) r = Some r"
    if "map_of (reconcile merge_list) k = Some r" for k r
    using inv that by (rule merge_invD1)
  moreover have "apply_map (reconcile merge_list) (apply_map (reconcile merge_list) x)
                 = apply_map (reconcile merge_list) x" for x
    unfolding apply_map_rep_of using inv by (rule rep_of_idem)
  ultimately show ?thesis by blast
qed

theorem reconcile_idempotent_witness:
  "map_of (reconcile [(1, 2), (2, 1)]) 1 = Some 2
   \<and> map_of (reconcile [(1, 2), (2, 1)]) 2 = Some 2
   \<and> apply_map (reconcile [(1, 2), (2, 1)]) (apply_map (reconcile [(1, 2), (2, 1)]) 1)
       = apply_map (reconcile [(1, 2), (2, 1)]) 1"
proof -
  have k: "map_of (reconcile [(1, 2), (2, 1)]) 1 = Some 2" by code_simp
  have n: "map_of (reconcile [(1, 2), (2, 1)]) 2 \<noteq> None" by code_simp
  have "map_of (reconcile [(1, 2), (2, 1)]) 2 = None
        \<or> map_of (reconcile [(1, 2), (2, 1)]) 2 = Some 2"
    using k by (rule reconcile_idempotent[THEN conjunct1, rule_format])
  then have v: "map_of (reconcile [(1, 2), (2, 1)]) 2 = Some 2" using n by blast
  have "apply_map (reconcile [(1, 2), (2, 1)]) (apply_map (reconcile [(1, 2), (2, 1)]) 1)
        = apply_map (reconcile [(1, 2), (2, 1)]) 1"
    by (rule reconcile_idempotent[THEN conjunct2, rule_format])
  then show ?thesis using k v by blast
qed




section \<open>Pairwise merge computation and the whole stitch\<close>

lemma map_tasks_fails:
  "x \<in> set xs \<Longrightarrow> f x = Inl e \<Longrightarrow> \<exists>e'. map_tasks f xs = Inl e'"
proof (induction xs)
  case Nil
  then show ?case by simp
next
  case (Cons y ys)
  show ?case
  proof (cases "f y")
    case (Inl e0)
    then show ?thesis by (simp add: bind_def)
  next
    case (Inr v)
    then have "x \<in> set ys" using Cons.prems by auto
    then obtain e' where "map_tasks f ys = Inl e'" using Cons.IH Cons.prems(2) by blast
    then show ?thesis using Inr by (simp add: bind_def)
  qed
qed

lemma stitcher_malformed:
  assumes "malformed_group (key, boundary_list)"
  shows "stitcher tch offs (key, boundary_list) =
         (if length boundary_list \<noteq> 2
          then Inl (Exception ''Expects exactly two subvolumes per boundary'')
          else Inl (Exception ''Extracted boundaries are different shapes''))"
  using assms by (auto simp: stitcher_def malformed_group_def Let_def)

text \<open>
  C9. When the boundaries have been extracted and grouped, a group that does not have
  exactly two contributors, or whose two boundaries differ in shape, makes
  \<^verbatim>\<open>stitcher\<close> raise; the exception fails the collection of the merge list and with it
  the whole \<^verbatim>\<open>stitch\<close>, which returns no relabelled block at all.
\<close>

theorem malformed_boundary_group_aborts:
  assumes "is_cached label_chunks"
    and "grouped_boundaries label_chunks = Inr groups"
    and "(key, boundary_list) \<in> set groups"
    and "malformed_group (key, boundary_list)"
  shows "stitcher tch offs (key, boundary_list) =
           (if length boundary_list \<noteq> 2
            then Inl (Exception ''Expects exactly two subvolumes per boundary'')
            else Inl (Exception ''Extracted boundaries are different shapes''))
       \<and> (\<exists>e. collect_merge_list tch label_chunks = Inl e)
       \<and> (\<exists>e. stitch tch label_chunks = Inl e)"
proof -
  let ?offs = "assign_offsets (map fst (elems label_chunks))
                 (map (snd \<circ> snd) (elems label_chunks))"
  have "\<exists>e. stitcher tch ?offs (key, boundary_list) = Inl e"
    by (simp add: stitcher_malformed[OF assms(4)])
  then obtain e where "map_tasks (stitcher tch ?offs) groups = Inl e"
    using map_tasks_fails[OF assms(3)] by blast
  then have c: "collect_merge_list tch label_chunks = Inl e"
    using assms(1,2) by (simp add: collect_merge_list_def Let_def bind_def)
  then have "stitch tch label_chunks = Inl e" by (simp add: stitch_def bind_def)
  then show ?thesis using c stitcher_malformed[OF assms(4)] by blast
qed

theorem malformed_boundary_group_aborts_witness:
  "is_cached three_contributors
   \<and> (case grouped_boundaries three_contributors of
        Inr groups \<Rightarrow> list_ex (\<lambda>g. malformed_group g \<and> length (snd g) = 3) groups
      | Inl e \<Rightarrow> False)
   \<and> (\<exists>e. collect_merge_list touches three_contributors = Inl e)
   \<and> (\<exists>e. stitch touches three_contributors = Inl e)"
proof -
  have c: "is_cached three_contributors" by (simp add: three_contributors_def)
  have g: "(case grouped_boundaries three_contributors of
              Inr groups \<Rightarrow> list_ex (\<lambda>g. malformed_group g \<and> length (snd g) = 3) groups
            | Inl e \<Rightarrow> False)"
    by code_simp
  then obtain groups where gs: "grouped_boundaries three_contributors = Inr groups"
    and "list_ex (\<lambda>g. malformed_group g \<and> length (snd g) = 3) groups"
    by (cases "grouped_boundaries three_contributors") auto
  then obtain key boundary_list where m: "(key, boundary_list) \<in> set groups"
      "malformed_group (key, boundary_list)"
    by (auto simp: list_ex_iff)
  from malformed_boundary_group_aborts[OF c gs m, of touches]
  show ?thesis using c g by blast
qed

lemma stitcher_cong_touches:
  assumes "\<not> sv_index sa > sv_index sb"
    and "tch (box_x1 (box sa)) (box_x2 (box sa)) (box_x1 (box sb)) (box_x2 (box sb))
         = tch' (box_x1 (box sa)) (box_x2 (box sa)) (box_x1 (box sb)) (box_x2 (box sb))"
    and "tch (box_y1 (box sa)) (box_y2 (box sa)) (box_y1 (box sb)) (box_y2 (box sb))
         = tch' (box_y1 (box sa)) (box_y2 (box sa)) (box_y1 (box sb)) (box_y2 (box sb))"
    and "tch (box_z1 (box sa)) (box_z2 (box sa)) (box_z1 (box sb)) (box_z2 (box sb))
         = tch' (box_z1 (box sa)) (box_z2 (box sa)) (box_z1 (box sb)) (box_z2 (box sb))"
  shows "stitcher tch offs (key, [(sa, ba), (sb, bb)]) = stitcher tch' offs (key, [(sa, ba), (sb, bb)])"
  unfolding stitcher_def Let_def One_nat_def
  using assms by (simp cong: list.case_cong if_cong)

lemma two_blocks_groups:
  "grouped_boundaries two_blocks =
   Inr [((0, 1), [(subvolumeA, \<lparr>shape = [4, 4, 2], data = replicate 32 2\<rparr>),
                  (subvolumeB, \<lparr>shape = [4, 4, 2], data = replicate 32 1\<rparr>)])]"
  by code_simp

lemma two_blocks_offsets:
  "assign_offsets (map fst (elems two_blocks)) (map (snd \<circ> snd) (elems two_blocks)) = [(0, 0), (1, 3)]"
  by code_simp

lemma two_blocks_stitcher_cases:
  "list_all (\<lambda>(bx, byz).
      stitcher (\<lambda>p1 p2 p1_2 p2_2. if p1_2 = 3 then bx else byz) [(0, 0), (1, 3)]
        ((0, 1), [(subvolumeA, \<lparr>shape = [4, 4, 2], data = replicate 32 2\<rparr>),
                  (subvolumeB, \<lparr>shape = [4, 4, 2], data = replicate 32 1\<rparr>)])
      = Inr (0, [(2, 4)]))
     [(True, True), (True, False), (False, True), (False, False)]"
  by code_simp

lemma two_blocks_stitcher:
  "stitcher tch [(0, 0), (1, 3)]
        ((0, 1), [(subvolumeA, \<lparr>shape = [4, 4, 2], data = replicate 32 2\<rparr>),
                  (subvolumeB, \<lparr>shape = [4, 4, 2], data = replicate 32 1\<rparr>)])
      = Inr (0, [(2, 4)])"
proof -
  let ?g = "((0, 1), [(subvolumeA, \<lparr>shape = [4, 4, 2], data = replicate 32 2\<rparr>),
                  (subvolumeB, \<lparr>shape = [4, 4, 2], data = replicate 32 1\<rparr>)])"
  let ?P = "\<lambda>bx byz. stitcher (\<lambda>p1 p2 p1_2 p2_2. if p1_2 = 3 then bx else byz)
                        [(0, 0), (1, 3)] ?g = Inr (0, [(2, 4)])"
  have c: "?P True True" "?P True False" "?P False True" "?P False False"
    using two_blocks_stitcher_cases by (simp_all only: list.pred_inject case_prod_conv simp_thms)
  have all: "?P bx byz" for bx byz
  proof (cases bx)
    case True
    note bx = this
    show ?thesis
    proof (cases byz)
      case True
      show ?thesis unfolding Eq_TrueI[OF bx] Eq_TrueI[OF True] by (rule c(1))
    next
      case False
      show ?thesis unfolding Eq_TrueI[OF bx] Eq_FalseI[OF False] by (rule c(2))
    qed
  next
    case False
    note bx = this
    show ?thesis
    proof (cases byz)
      case True
      show ?thesis unfolding Eq_FalseI[OF bx] Eq_TrueI[OF True] by (rule c(3))
    next
      case False
      show ?thesis unfolding Eq_FalseI[OF bx] Eq_FalseI[OF False] by (rule c(4))
    qed
  qed
  have "stitcher tch [(0, 0), (1, 3)] ?g
        = stitcher (\<lambda>p1 p2 p1_2 p2_2. if p1_2 = 3 then tch 1 3 3 5 else tch 1 3 1 3)
            [(0, 0), (1, 3)] ?g"
    by (rule stitcher_cong_touches)
       (simp_all add: subvolumeA_def subvolumeB_def boxA_def boxB_def)
  also have "\<dots> = Inr (0, [(2, 4)])" by (rule all)
  finally show ?thesis .
qed

lemma two_blocks_reduce:
  "concat (map snd (reduceByKey reduce_mappings [(0 :: nat, [(2 :: nat, 4 :: nat)])])) = [(2, 4)]"
  by code_simp

lemma two_blocks_merge_list: "collect_merge_list tch two_blocks = Inr [(2, 4)]"
proof -
  have c: "is_cached two_blocks" by (simp add: two_blocks_def)
  show ?thesis
    unfolding collect_merge_list_def Let_def two_blocks_offsets two_blocks_groups
    by (simp only: c bind_def sum.case map_tasks.simps two_blocks_stitcher two_blocks_reduce
        not_True_eq_False if_False)
qed

lemma two_blocks_relabel:
  "map_tasks (relabel [(0, 0), (1, 3)] (reconcile [(2, 4)]))
     (zip (map fst (elems two_blocks)) (map (fst \<circ> snd) (elems two_blocks)))
   = Inr [(subvolumeA, labelsA\<lparr>data := concat (replicate 16 [1, 1, 4, 4])\<rparr>),
          (subvolumeB, labelsB\<lparr>data := replicate 64 4\<rparr>)]"
  by code_simp

text \<open>
  C4, as the code has it. In the two-block scenario (blocks A and B of 4 x 4 x 4 voxels
  that share a face, A labelled 1 and 2, B labelled 1, B's 1 overlapping A's 2 on the
  whole shared region, offsets 0 and 3) the pairwise stage emits the single merge
  edge \<open>(2, 4)\<close>. Reconciliation maps the first endpoint of an edge to the second, so
  the final output relabels A's label 2 to 4 and leaves A's label 1 alone, and B's
  label 1 becomes the global label 4: the block with the higher index keeps its
  labels. This holds whatever \<^verbatim>\<open>Subvolume.touches\<close> answers.
\<close>

theorem two_blocks_stitch:
  "collect_merge_list tch two_blocks = Inr [(2, 4)]
   \<and> stitch tch two_blocks =
       Inr [(subvolumeA, labelsA\<lparr>data := concat (replicate 16 [1, 1, 4, 4])\<rparr>),
            (subvolumeB, labelsB\<lparr>data := replicate 64 4\<rparr>)]"
  unfolding stitch_def Let_def two_blocks_merge_list two_blocks_offsets
  by (simp only: bind_def sum.case two_blocks_relabel simp_thms)

text \<open>
  C4, as claimed, fails: with the merge edge \<open>(2, 4)\<close> the output is not "B's 1
  relabelled to 2 and A unchanged"; block B carries the label 4 everywhere and
  block A has its label 2 replaced by 4.
\<close>

theorem two_blocks_stitch_not_as_claimed:
  "collect_merge_list touches two_blocks = Inr [(2, 4)]
   \<and> stitch touches two_blocks \<noteq> Inr [(subvolumeA, labelsA), (subvolumeB, labelsB\<lparr>data := replicate 64 2\<rparr>)]
   \<and> map (data \<circ> snd) (projr (stitch touches two_blocks))
       = [concat (replicate 16 [1, 1, 4, 4]), replicate 64 4]"
  by code_simp

section \<open>Split-body relabelling\<close>

lemma map_of_unique:
  assumes "(k, v) \<in> set ps" "\<And>v'. (k, v') \<in> set ps \<Longrightarrow> v' = v"
  shows "map_of ps k = Some v"
proof -
  have "k \<in> fst ` set ps" using assms(1) by force
  then obtain w where w: "map_of ps k = Some w" by (cases "map_of ps k") (auto simp: map_of_eq_None_iff)
  then have "(k, w) \<in> set ps" by (rule map_of_SomeD)
  then show ?thesis using assms(2) w by simp
qed

lemma map_of_dict_of_unique:
  assumes "(k, v) \<in> set ps" "\<And>v'. (k, v') \<in> set ps \<Longrightarrow> v' = v"
  shows "map_of (dict_of ps) k = Some v"
proof -
  have "map_of (rev ps) k = Some v"
  proof (rule map_of_unique)
    show "(k, v) \<in> set (rev ps)" using assms(1) by simp
    fix v' assume "(k, v') \<in> set (rev ps)"
    then have "(k, v') \<in> set ps" by simp
    then show "v' = v" by (rule assms(2))
  qed
  then show ?thesis by (simp add: map_of_dict_of)
qed

lemma map_of_dict_of_None: "k \<notin> fst ` set ps \<Longrightarrow> map_of (dict_of ps) k = None"
  unfolding map_of_dict_of by (simp add: map_of_eq_None_iff)

lemma map_of_dict_of_SomeD: "map_of (dict_of ps) k = Some v \<Longrightarrow> (k, v) \<in> set ps"
  unfolding map_of_dict_of by (drule map_of_SomeD) simp

lemma length_dict_of: "length (dict_of ps) = card (fst ` set ps)"
proof -
  have "length (dict_of ps) = length (map fst (dict_of ps))" by simp
  also have "\<dots> = card (set (map fst (dict_of ps)))"
    using distinct_dict_of[of ps] by (rule distinct_card[symmetric])
  also have "\<dots> = card (fst ` set ps)" by (simp add: keys_dict_of)
  finally show ?thesis .
qed

lemma length_dict_update:
  assumes "distinct (map fst d)"
  shows "length (dict_update d ps) = card (fst ` set d \<union> fst ` set ps)"
proof -
  have "length (dict_update d ps) = length (map fst (dict_update d ps))" by simp
  also have "\<dots> = card (set (map fst (dict_update d ps)))"
    using distinct_dict_update[OF assms, of ps] by (rule distinct_card[symmetric])
  also have "\<dots> = card (fst ` set d \<union> fst ` set ps)" by (simp add: keys_dict_update)
  finally show ?thesis .
qed

lemma reverse_dict_ok:
  assumes "distinct (map fst d)" "distinct (map snd d)"
  shows "\<exists>r. reverse_dict d = Inr r \<and> distinct (map fst r) \<and> length r = length d
           \<and> fst ` set r = snd ` set d
           \<and> (\<forall>v k. map_of r v = Some k \<longleftrightarrow> (k, v) \<in> set d)"
proof -
  let ?ps = "map (\<lambda>(k, v). (v, k)) d"
  let ?r = "dict_of ?ps"
  have fs: "fst ` set ?ps = snd ` set d" by force
  have "length ?r = card (snd ` set d)" by (simp only: length_dict_of fs)
  also have "\<dots> = card (set (map snd d))" by simp
  also have "\<dots> = length (map snd d)" using assms(2) by (rule distinct_card)
  finally have len: "length ?r = length d" by simp
  have iff: "map_of ?r v = Some k \<longleftrightarrow> (k, v) \<in> set d" for v k
  proof
    assume "map_of ?r v = Some k"
    then have "(v, k) \<in> set ?ps" by (rule map_of_dict_of_SomeD)
    then show "(k, v) \<in> set d" by auto
  next
    assume kv: "(k, v) \<in> set d"
    show "map_of ?r v = Some k"
    proof (rule map_of_dict_of_unique)
      show "(v, k) \<in> set ?ps" using kv by force
      fix k' assume "(v, k') \<in> set ?ps"
      then have "(k', v) \<in> set d" by auto
      moreover have "inj_on snd (set d)" using assms(2) by (simp add: distinct_map)
      ultimately have "(k', v) = (k, v)" using kv by (intro inj_onD[of snd "set d"]) simp_all
      then show "k' = k" by simp
    qed
  qed
  have "reverse_dict d = Inr ?r" using len by (simp add: reverse_dict_def Let_def)
  moreover have "fst ` set ?r = snd ` set d" by (simp only: keys_dict_of fs)
  ultimately show ?thesis using len iff distinct_dict_of[of ?ps] by blast
qed

lemma compose2_ok:
  assumes "\<forall>kv \<in> set AtoB. map_of BtoC (snd kv) \<noteq> None"
  shows "compose2 AtoB BtoC = Inr (map (\<lambda>(k, v). (k, the (map_of BtoC v))) AtoB)"
  using assms
proof (induction AtoB)
  case Nil
  then show ?case by simp
next
  case (Cons kv AtoB)
  obtain k v where kv: "kv = (k, v)" by (cases kv)
  obtain w where w: "map_of BtoC v = Some w" using Cons.prems kv by auto
  have "compose2 AtoB BtoC = Inr (map (\<lambda>(k, v). (k, the (map_of BtoC v))) AtoB)"
    using Cons.prems by (intro Cons.IH) simp
  then show ?case using kv w by (simp add: bind_def)
qed

lemma map_of_compose:
  "map_of (map (\<lambda>(k, v). (k, the (map_of BtoC v))) AtoB) k
   = (case map_of AtoB k of None \<Rightarrow> None | Some v \<Rightarrow> Some (the (map_of BtoC v)))"
  by (induction AtoB) auto

lemma keys_compose:
  "map fst (map (\<lambda>(k, v). (k, the (map_of BtoC v))) AtoB) = map fst AtoB"
  by (induction AtoB) auto

lemma relabel_scan_inv:
  assumes "map snd m = [0..<length m]" "distinct (map fst m)"
  shows "map snd (relabel_scan m x) = [0..<length (relabel_scan m x)]"
    and "distinct (map fst (relabel_scan m x))"
    and "fst ` set (relabel_scan m x) = insert x (fst ` set m)"
    and "set m \<subseteq> set (relabel_scan m x)"
proof -
  show "map snd (relabel_scan m x) = [0..<length (relabel_scan m x)]"
    using assms(1) by (simp add: relabel_scan_def split: option.splits)
  show "distinct (map fst (relabel_scan m x))"
    using assms(2) by (auto simp: relabel_scan_def map_of_eq_None_iff split: option.splits)
  show "fst ` set (relabel_scan m x) = insert x (fst ` set m)"
  proof (cases "map_of m x")
    case None
    then show ?thesis by (simp add: relabel_scan_def)
  next
    case (Some y)
    then have "x \<in> fst ` set m" by (metis map_of_eq_None_iff option.distinct(1))
    then show ?thesis using Some by (auto simp: relabel_scan_def)
  qed
  show "set m \<subseteq> set (relabel_scan m x)"
    by (auto simp: relabel_scan_def split: option.splits)
qed

lemma foldl_relabel_scan_inv:
  assumes "map snd m = [0..<length m]" "distinct (map fst m)"
  shows "map snd (foldl relabel_scan m xs) = [0..<length (foldl relabel_scan m xs)]
       \<and> distinct (map fst (foldl relabel_scan m xs))
       \<and> fst ` set (foldl relabel_scan m xs) = fst ` set m \<union> set xs
       \<and> set m \<subseteq> set (foldl relabel_scan m xs)"
  using assms
proof (induction xs arbitrary: m)
  case Nil
  then show ?case by simp
next
  case (Cons x xs)
  note s = relabel_scan_inv[OF Cons.prems, of x]
  have "map snd (foldl relabel_scan (relabel_scan m x) xs) = [0..<length (foldl relabel_scan (relabel_scan m x) xs)]
       \<and> distinct (map fst (foldl relabel_scan (relabel_scan m x) xs))
       \<and> fst ` set (foldl relabel_scan (relabel_scan m x) xs) = fst ` set (relabel_scan m x) \<union> set xs
       \<and> set (relabel_scan m x) \<subseteq> set (foldl relabel_scan (relabel_scan m x) xs)"
    using s(1,2) by (rule Cons.IH)
  then show ?case using s(3,4) by auto
qed

lemma relabelConsecutive_spec:
  assumes "relabelConsecutive A = (Ac, N, o2c)"
  shows "distinct (map fst o2c)" and "map snd o2c = [0..<N + 1]" and "length o2c = N + 1"
    and "(0, 0) \<in> set o2c" and "fst ` set o2c = insert 0 (set (data A))"
    and "shape Ac = shape A"
    and "data Ac = map (\<lambda>x. case map_of o2c x of Some y \<Rightarrow> y | None \<Rightarrow> x) (data A)"
proof -
  have o2c: "o2c = foldl relabel_scan [(0, 0)] (data A)" and N: "N = length o2c - 1"
    and Ac: "Ac = A\<lparr>data := map (\<lambda>x. case map_of o2c x of Some y \<Rightarrow> y | None \<Rightarrow> x) (data A)\<rparr>"
    using assms by (auto simp: relabelConsecutive_def Let_def)
  have inv: "map snd o2c = [0..<length o2c]" "distinct (map fst o2c)"
      "fst ` set o2c = fst ` set [(0::nat, 0::nat)] \<union> set (data A)" "set [(0::nat, 0::nat)] \<subseteq> set o2c"
    unfolding o2c using foldl_relabel_scan_inv[of "[(0, 0)]" "data A"] by simp_all
  have pos: "length o2c \<ge> 1" using inv(4) by (cases o2c) auto
  show "distinct (map fst o2c)" by (rule inv(2))
  show "length o2c = N + 1" using N pos by simp
  then show "map snd o2c = [0..<N + 1]" using inv(1) by simp
  show "(0, 0) \<in> set o2c" using inv(4) by simp
  show "fst ` set o2c = insert 0 (set (data A))" using inv(3) by simp
  show "shape Ac = shape A" by (simp add: Ac)
  show "data Ac = map (\<lambda>x. case map_of o2c x of Some y \<Rightarrow> y | None \<Rightarrow> x) (data A)" by (simp add: Ac)
qed

lemma split_labelling_pairs:
  assumes "split_labelling cons split"
  shows "length split = length cons"
    and "\<And>c s. (c, s) \<in> set (zip cons split) \<Longrightarrow> (s = 0) = (c = 0)"
    and "\<And>c c' s. (c, s) \<in> set (zip cons split) \<Longrightarrow> (c', s) \<in> set (zip cons split) \<Longrightarrow> c = c'"
proof -
  have len: "length split = length cons"
    and z: "\<And>i. i < length cons \<Longrightarrow> (split ! i = 0) = (cons ! i = 0)"
    and f: "\<And>i j. i < length cons \<Longrightarrow> j < length cons \<Longrightarrow> split ! i = split ! j
              \<Longrightarrow> cons ! i = cons ! j"
    using assms unfolding split_labelling_def by blast+
  show "length split = length cons" by (rule len)
  show "(s = 0) = (c = 0)" if m: "(c, s) \<in> set (zip cons split)" for c s
  proof -
    obtain i where i: "i < length cons" "cons ! i = c" "split ! i = s"
      using m len by (auto simp: in_set_zip)
    show ?thesis using z[OF i(1)] i(2,3) by simp
  qed
  show "c = c'" if m: "(c, s) \<in> set (zip cons split)" "(c', s) \<in> set (zip cons split)" for c c' s
  proof -
    obtain i where i: "i < length cons" "cons ! i = c" "split ! i = s"
      using m(1) len by (auto simp: in_set_zip)
    obtain j where j: "j < length cons" "cons ! j = c'" "split ! j = s"
      using m(2) len by (auto simp: in_set_zip)
    have "cons ! i = cons ! j" using i(3) j(3) by (intro f[OF i(1) j(1)]) simp
    then show ?thesis using i j by simp
  qed
qed

lemma set_fold_removeAll: "set (fold removeAll ps es) = set es - set ps"
  by (induction ps arbitrary: es) auto

lemma removeAll_pair: "(\<lambda>(i, s) es. removeAll (i, s) es) = removeAll"
  by (auto simp: fun_eq_iff)

lemma zip_take_right: "zip xs ys = zip xs (take (length xs) ys)"
proof -
  have "zip xs ys = take (length xs) (zip xs ys)" by simp
  also have "\<dots> = zip xs (take (length xs) ys)" by (simp add: take_zip)
  finally show ?thesis .
qed

lemma set_csr_nonzero:
  assumes "\<forall>e \<in> set (coo_entries m). snd (snd e) > 0"
  shows "set (csr_nonzero m) = (\<lambda>(r, c, d). (r, c)) ` set (coo_entries m)"
proof -
  have "filter (\<lambda>(r, c, d). d \<noteq> 0) (sort_key (\<lambda>(r, c, d). r) (coo_entries m))
        = sort_key (\<lambda>(r, c, d). r) (coo_entries m)"
    using assms by (intro filter_True) auto
  then show ?thesis by (simp add: csr_nonzero_def)
qed

lemma distinct_values:
  assumes "distinct (map fst d)"
    and "\<And>k k' v. map_of d k = Some v \<Longrightarrow> map_of d k' = Some v \<Longrightarrow> k = k'"
  shows "distinct (map snd d)"
proof -
  have "distinct d" using assms(1) by (simp add: distinct_map)
  moreover have "inj_on snd (set d)"
  proof (rule inj_onI)
    fix x y assume xy: "x \<in> set d" "y \<in> set d" "snd x = snd y"
    obtain k v where x: "x = (k, v)" by (cases x)
    obtain k' v' where y: "y = (k', v')" by (cases y)
    have "map_of d k = Some v" "map_of d k' = Some v"
      using assms(1) xy x y by simp_all
    then have "k = k'" by (rule assms(2))
    then show "x = y" using x y xy(3) by simp
  qed
  ultimately show ?thesis by (simp add: distinct_map)
qed

lemma map_of_zip_upt:
  assumes "distinct xs" "i < length xs" "length xs \<le> b - a"
  shows "map_of (zip xs [a..<b]) (xs ! i) = Some (a + i)"
proof -
  let ?ys = "take (length xs) [a..<b]"
  have z: "zip xs [a..<b] = zip xs ?ys" by (rule zip_take_right)
  have len: "length xs = length ?ys" using assms(3) by simp
  have "map_of (zip xs ?ys) (xs ! i) = Some (?ys ! i)"
    using len assms(1) assms(2) by (intro map_of_zip_nth) simp_all
  moreover have "?ys ! i = a + i" using assms(2,3) by simp
  ultimately show ?thesis by (simp only: z)
qed

lemma keys_zip_upt:
  assumes "length xs \<le> b - a"
  shows "fst ` set (zip xs [a..<b]) = set xs"
proof -
  have "map fst (zip xs (take (length xs) [a..<b])) = xs"
    using assms by (intro map_fst_zip) simp
  moreover have "zip xs [a..<b] = zip xs (take (length xs) [a..<b])"
    by (rule zip_take_right)
  ultimately show ?thesis by (metis set_map)
qed

lemma contingency_table_ok:
  assumes "length (data vol1) = length (data vol2)" "data vol1 \<noteq> []"
  shows "\<exists>t. contingency_table vol1 vol2 sparse = Inr t"
  using assms by (simp add: contingency_table_def reshape_flat_def Let_def)

lemma Max_consecutive:
  fixes xs :: "nat list"
  assumes "xs \<noteq> []" "\<And>c. (c \<in> set xs \<or> c = 0) \<longleftrightarrow> c \<le> N"
  shows "Max (set xs) = N"
proof (cases "N \<in> set xs")
  case True
  show ?thesis
  proof (rule Max_eqI)
    show "finite (set xs)" by simp
    show "N \<in> set xs" by (rule True)
    fix y assume "y \<in> set xs" then show "y \<le> N" using assms(2)[of y] by simp
  qed
next
  case False
  then have N: "N = 0" using assms(2)[of N] by simp
  have all0: "y = 0" if "y \<in> set xs" for y using assms(2)[of y] that N by simp
  obtain x where x: "x \<in> set xs" using assms(1) by (cases xs) auto
  have "0 \<in> set xs" using all0[OF x] x by simp
  then have "Max (set xs) = 0" using all0 by (intro Max_eqI) simp_all
  then show ?thesis using N by simp
qed

lemma main_split_segments_spec:
  assumes lab: "split_labelling (data Ac) (data As)"
    and cons: "\<And>c. (c \<in> set (data Ac) \<or> c = 0) \<longleftrightarrow> c \<le> N"
    and ne: "data Ac \<noteq> []"
  shows "\<exists>m main. contingency_table Ac As True = Inr (Sparse m)
          \<and> table_shape (Sparse m) = (N + 1, Max (set (data As)) + 1)
          \<and> matrix_argmax (Sparse m) 1 = Inr main
          \<and> set (csr_nonzero m) = set (zip (data Ac) (data As))
          \<and> length main = N + 1 \<and> main ! 0 = 0
          \<and> (\<forall>c. 1 \<le> c \<and> c \<le> N \<longrightarrow> (c, main ! c) \<in> set (zip (data Ac) (data As)))
          \<and> (\<forall>c \<le> N. is_argmax (\<lambda>s. count_list (zip (data Ac) (data As)) (c, s))
                          (Max (set (data As)) + 1) (main ! c))"
proof -
  let ?Lc = "data Ac" and ?Ls = "data As"
  let ?Z = "set (zip ?Lc ?Ls)"
  let ?K = "Max (set ?Ls)"
  note lp = split_labelling_pairs[OF lab]
  have len: "length ?Lc = length ?Ls" using lp(1) by simp
  obtain t where t: "contingency_table Ac As True = Inr t"
    using contingency_table_ok[OF len ne] by blast
  obtain m where m: "t = Sparse m" "canonical m"
      "\<forall>e \<in> set (coo_entries m). snd (snd e) > 0"
      "(\<lambda>(r, c, d). (r, c)) ` set (coo_entries m) = ?Z"
    using contingency_sparse[OF t] by blast
  have maxc: "Max (set ?Lc) = N" using ne cons by (rule Max_consecutive)
  obtain main where main: "row_argmax t = Inr main" "length main = fst (table_shape t)"
      "\<forall>r < fst (table_shape t). is_argmax (table_count t r) (snd (table_shape t)) (main ! r)"
      "table_shape t = (Max (set ?Lc) + 1, ?K + 1)"
      "\<forall>r < fst (table_shape t). \<forall>c < snd (table_shape t).
                table_count t r c = count_list (zip ?Lc ?Ls) (r, c)"
    using row_argmax_contingency[OF t] by blast
  have sh: "table_shape t = (N + 1, ?K + 1)" using main(4) maxc by simp
  have lenm: "length main = N + 1" using main(2) sh by simp
  have am: "is_argmax (\<lambda>s. count_list (zip ?Lc ?Ls) (c, s)) (?K + 1) (main ! c)" if c: "c \<le> N" for c
  proof -
    have 1: "is_argmax (table_count t c) (?K + 1) (main ! c)" using main(3) sh c by simp
    have 2: "table_count t c s = count_list (zip ?Lc ?Ls) (c, s)" if "s < ?K + 1" for s
      using main(5) sh c that by simp
    have lt: "main ! c < ?K + 1" using 1 by (simp add: is_argmax_def)
    show ?thesis unfolding is_argmax_def
    proof (intro conjI allI impI)
      show "main ! c < ?K + 1" by (rule lt)
      fix j assume j: "j < ?K + 1"
      have "table_count t c j \<le> table_count t c (main ! c)" using 1 j unfolding is_argmax_def by blast
      then show "count_list (zip ?Lc ?Ls) (c, j) \<le> count_list (zip ?Lc ?Ls) (c, main ! c)"
        using 2[OF j] 2[OF lt] by simp
    next
      fix j assume j: "j < main ! c"
      then have jk: "j < ?K + 1" using lt by simp
      have "table_count t c j < table_count t c (main ! c)" using 1 j unfolding is_argmax_def by blast
      then show "count_list (zip ?Lc ?Ls) (c, j) < count_list (zip ?Lc ?Ls) (c, main ! c)"
        using 2[OF jk] 2[OF lt] by simp
    qed
  qed
  have m1: "(c, main ! c) \<in> ?Z" if c: "1 \<le> c" "c \<le> N" for c
  proof -
    have "c \<in> set ?Lc" using cons[of c] c by simp
    then obtain i where i: "i < length ?Lc" "?Lc ! i = c" by (auto simp: in_set_conv_nth)
    let ?s = "?Ls ! i"
    have mem: "(c, ?s) \<in> ?Z" using i len by (auto simp: in_set_zip)
    have "?s \<in> set ?Ls" using i len by simp
    then have "?s \<le> ?K" by simp
    then have "count_list (zip ?Lc ?Ls) (c, ?s) \<le> count_list (zip ?Lc ?Ls) (c, main ! c)"
      using am[OF c(2)] unfolding is_argmax_def by simp
    moreover have "count_list (zip ?Lc ?Ls) (c, ?s) \<noteq> 0" using mem by (simp add: count_list_0_iff)
    ultimately have "count_list (zip ?Lc ?Ls) (c, main ! c) \<noteq> 0" by simp
    then show ?thesis by (simp add: count_list_0_iff)
  qed
  have m0: "main ! 0 = 0"
  proof (rule ccontr)
    assume nz: "main ! 0 \<noteq> 0"
    then have "count_list (zip ?Lc ?Ls) (0, 0) < count_list (zip ?Lc ?Ls) (0, main ! 0)"
      using am[of 0] unfolding is_argmax_def by simp
    then have "count_list (zip ?Lc ?Ls) (0, main ! 0) \<noteq> 0" by simp
    then have "(0, main ! 0) \<in> ?Z" by (simp add: count_list_0_iff)
    then have "(main ! 0 = 0) = (0 = (0::nat))" by (rule lp(2))
    then show False using nz by simp
  qed
  have nzs: "set (csr_nonzero m) = ?Z" using set_csr_nonzero[OF m(3)] m(4) by simp
  have "matrix_argmax (Sparse m) 1 = Inr main" using main(1) m(1) by (simp add: matrix_argmax_def)
  then show ?thesis using t m(1) sh nzs lenm m0 m1 am by blast
qed

lemma split_to_orig_spec:
  assumes lab: "split_labelling Lc Ls"
    and nz: "set nonzero = set (zip Lc Ls)"
  defines "s2o \<equiv> AList.update 0 0 (dict_of (map (\<lambda>(r, c). (c, r)) nonzero))"
  shows "distinct (map fst s2o)" and "fst ` set s2o = insert 0 (set Ls)"
    and "\<And>c s. (c, s) \<in> set (zip Lc Ls) \<Longrightarrow> map_of s2o s = Some c"
    and "map_of s2o 0 = Some 0"
proof -
  note lp = split_labelling_pairs[OF lab]
  let ?ps = "map (\<lambda>(r, c). (c, r)) nonzero"
  have sndZ: "snd ` set (zip Lc Ls) = set Ls"
  proof -
    have "map snd (zip Lc Ls) = Ls" using lp(1) by (intro map_snd_zip) simp
    then show ?thesis by (metis set_map)
  qed
  have keys: "fst ` set ?ps = set Ls"
  proof -
    have "fst ` set ?ps = snd ` set nonzero" by force
    then show ?thesis using nz sndZ by simp
  qed
  show "distinct (map fst s2o)" unfolding s2o_def by (intro distinct_update distinct_dict_of)
  have "fst ` set s2o = dom (map_of s2o)" by (simp add: dom_map_of_conv_image_fst)
  also have "\<dots> = insert 0 (dom (map_of (dict_of ?ps)))" unfolding s2o_def by (simp add: update_conv')
  also have "\<dots> = insert 0 (fst ` set (dict_of ?ps))" by (simp add: dom_map_of_conv_image_fst)
  also have "\<dots> = insert 0 (set Ls)" by (simp only: keys_dict_of keys)
  finally show "fst ` set s2o = insert 0 (set Ls)" .
  show z: "map_of s2o 0 = Some 0" unfolding s2o_def by (simp add: update_conv')
  show "map_of s2o s = Some c" if m: "(c, s) \<in> set (zip Lc Ls)" for c s
  proof (cases "s = 0")
    case True
    then have "c = 0" using lp(2)[OF m] by simp
    then show ?thesis using True z by simp
  next
    case False
    have "map_of (dict_of ?ps) s = Some c"
    proof (rule map_of_dict_of_unique)
      show "(s, c) \<in> set ?ps" using m nz by force
      fix c' assume "(s, c') \<in> set ?ps"
      then have "(c', s) \<in> set nonzero" by auto
      then have "(c', s) \<in> set (zip Lc Ls)" using nz by simp
      then show "c' = c" using m by (rule lp(3))
    qed
    then show ?thesis using False unfolding s2o_def by (simp add: update_conv')
  qed
qed

lemma map_of_rev_distinct:
  assumes "distinct (map fst xs)"
  shows "map_of (rev xs) = map_of xs"
proof (rule ext)
  fix k
  show "map_of (rev xs) k = map_of xs k"
  proof (cases "map_of xs k")
    case None
    then have "k \<notin> fst ` set (rev xs)" by (simp add: map_of_eq_None_iff)
    then have "map_of (rev xs) k = None" by (simp only: map_of_eq_None_iff not_False_eq_True)
    then show ?thesis using None by simp
  next
    case (Some v)
    then have "(k, v) \<in> set (rev xs)" by (simp add: map_of_SomeD)
    moreover have "distinct (map fst (rev xs))" using assms by (simp add: rev_map[symmetric])
    ultimately have "map_of (rev xs) k = Some v" by (rule map_of_is_SomeI[rotated])
    then show ?thesis using Some by simp
  qed
qed

lemma mem_index_pairs: "c \<le> N \<Longrightarrow> (f c, c) \<in> set (map (\<lambda>orig. (f orig, orig)) [0..<1 + N])"
proof -
  assume "c \<le> N"
  then have "c \<in> set [0..<1 + N]" by auto
  then show ?thesis by (simp only: set_map) (rule image_eqI[where x = c], simp_all)
qed

lemma index_pairs_D:
  "(s, c) \<in> set (map (\<lambda>orig. (f orig, orig)) [0..<1 + N]) \<Longrightarrow> c \<le> N \<and> s = f c"
  by auto

lemma keys_index_pairs:
  "fst ` set (map (\<lambda>orig. ((f orig) :: nat, orig)) [0..<1 + N]) = f ` {0..N}"
proof -
  have "fst ` set (map (\<lambda>orig. (f orig, orig)) [0..<1 + N]) = set (map f [0..<1 + N])"
    by (simp only: set_map image_image fst_conv)
  also have "\<dots> = f ` {0..<1 + N}" by (simp only: set_map set_upt)
  also have "{0..<1 + N} = {0..N}" by auto
  finally show ?thesis .
qed

lemma split_to_nonconflicting_spec:
  fixes main :: "nat list" and N K :: nat
  assumes lab: "split_labelling Lc Ls"
    and consr0: "\<forall>c s. (c, s) \<in> set (zip Lc Ls) \<longrightarrow> c \<le> N"
    and nz: "set nonzero = set (zip Lc Ls)"
    and lenm: "length main = N + 1" and m0: "main ! 0 = 0"
    and m10: "\<forall>c. 1 \<le> c \<and> c \<le> N \<longrightarrow> (c, main ! c) \<in> set (zip Lc Ls)"
    and K0: "\<forall>s \<in> set Ls. s \<le> K"
  defines "nonmain \<equiv> np_unique (map snd (fold (\<lambda>(i, s) es. removeAll (i, s) es) (enumerate 0 main) nonzero))"
  defines "s2n \<equiv> dict_update (dict_of (map (\<lambda>orig. (main ! orig, orig)) [0..<1 + N]))
                    (dict_of (zip nonmain [1 + N..<1 + K]))"
  shows "sorted nonmain" and "distinct nonmain"
    and "set nonmain = {s. \<exists>c. (c, s) \<in> set (zip Lc Ls) \<and> s \<noteq> main ! c}"
    and "distinct (map fst s2n)" and "length s2n = N + 1 + length nonmain"
    and "\<And>c. c \<le> N \<Longrightarrow> map_of s2n (main ! c) = Some c"
    and "\<And>i. i < length nonmain \<Longrightarrow> map_of s2n (nonmain ! i) = Some (N + 1 + i)"
    and "fst ` set s2n = insert 0 (set Ls)"
    and "\<And>k k' v. map_of s2n k = Some v \<Longrightarrow> map_of s2n k' = Some v \<Longrightarrow> k = k'"
proof -
  note lp = split_labelling_pairs[OF lab]
  let ?Z = "set (zip Lc Ls)"
  have consr: "\<And>c s. (c, s) \<in> set (zip Lc Ls) \<Longrightarrow> c \<le> N" using consr0 by blast
  have m1: "\<And>c. 1 \<le> c \<Longrightarrow> c \<le> N \<Longrightarrow> (c, main ! c) \<in> set (zip Lc Ls)" using m10 by blast
  have K: "\<And>s. s \<in> set Ls \<Longrightarrow> s \<le> K" using K0 by blast
  let ?mainps = "map (\<lambda>orig. (main ! orig, orig)) [0..<1 + N]"
  let ?nmps = "zip nonmain [1 + N..<1 + K]"
  have sndZ: "snd ` ?Z = set Ls"
  proof -
    have "map snd (zip Lc Ls) = Ls" using lp(1) by (intro map_snd_zip) simp
    then show ?thesis by (metis set_map)
  qed
  have ZLs: "s \<in> set Ls" if "(c, s) \<in> ?Z" for c s using that sndZ by force
  show srt: "sorted nonmain" by (simp add: nonmain_def np_unique_def)
  show dist: "distinct nonmain" by (simp add: nonmain_def np_unique_def)
  have enum: "set (enumerate 0 main) = {(i, main ! i) | i. i \<le> N}"
    using lenm by (auto simp: in_set_enumerate_eq)
  show setnm: "set nonmain = {s. \<exists>c. (c, s) \<in> ?Z \<and> s \<noteq> main ! c}"
  proof -
    have "set nonmain = snd ` (set nonzero - set (enumerate 0 main))"
      by (simp add: nonmain_def np_unique_def removeAll_pair set_fold_removeAll)
    also have "\<dots> = snd ` (?Z - {(i, main ! i) | i. i \<le> N})" by (simp only: nz enum)
    also have "\<dots> = {s. \<exists>c. (c, s) \<in> ?Z \<and> s \<noteq> main ! c}"
    proof (intro set_eqI iffI)
      fix s assume "s \<in> snd ` (?Z - {(i, main ! i) | i. i \<le> N})"
      then obtain c where c: "(c, s) \<in> ?Z" "(c, s) \<notin> {(i, main ! i) | i. i \<le> N}" by force
      have "c \<le> N" using c(1) by (rule consr)
      then have "s \<noteq> main ! c" using c(2) by blast
      then show "s \<in> {s. \<exists>c. (c, s) \<in> ?Z \<and> s \<noteq> main ! c}" using c(1) by blast
    next
      fix s assume "s \<in> {s. \<exists>c. (c, s) \<in> ?Z \<and> s \<noteq> main ! c}"
      then obtain c where c: "(c, s) \<in> ?Z" "s \<noteq> main ! c" by blast
      then have "(c, s) \<in> ?Z - {(i, main ! i) | i. i \<le> N}" by blast
      then show "s \<in> snd ` (?Z - {(i, main ! i) | i. i \<le> N})" by force
    qed
    finally show ?thesis .
  qed
  \<comment> \<open>the main pieces\<close>
  have mZ: "(c, main ! c) \<in> ?Z \<or> (c = 0 \<and> main ! c = 0)" if "c \<le> N" for c
    using that m0 m1[of c] by (cases "c = 0") auto
  have mnz: "main ! c \<noteq> 0" if "1 \<le> c" "c \<le> N" for c
  proof -
    have "(main ! c = 0) = (c = 0)" using m1[OF that] by (rule lp(2))
    then show ?thesis using that by simp
  qed
  have minj: "c = c'" if "c \<le> N" "c' \<le> N" "main ! c = main ! c'" for c c'
  proof (cases "c = 0 \<or> c' = 0")
    case True
    then show ?thesis using that m0 mnz[of c] mnz[of c'] by (cases "c = 0"; cases "c' = 0") auto
  next
    case False
    then have "(c, main ! c) \<in> ?Z" "(c', main ! c) \<in> ?Z" using m1[of c] m1[of c'] that by auto
    then show ?thesis by (rule lp(3))
  qed
  have main_not_nonmain: "main ! c \<notin> set nonmain" if c: "c \<le> N" for c
  proof
    assume "main ! c \<in> set nonmain"
    then obtain c' where c': "(c', main ! c) \<in> ?Z" "main ! c \<noteq> main ! c'" using setnm by blast
    show False
    proof (cases "c = 0")
      case True
      then have "(main ! c = 0) = (c' = 0)" using c'(1) by (intro lp(2))
      then show False using True m0 c'(2) by simp
    next
      case False
      then have "(c, main ! c) \<in> ?Z" using m1[of c] c by simp
      then have "c = c'" using c'(1) by (rule lp(3))
      then show False using c'(2) by simp
    qed
  qed
  have nm_pos: "1 \<le> s \<and> s \<le> K" if s: "s \<in> set nonmain" for s
  proof -
    obtain c where c: "(c, s) \<in> ?Z" "s \<noteq> main ! c" using s setnm by blast
    have "s \<noteq> 0"
    proof
      assume "s = 0"
      then have "c = 0" using lp(2)[OF c(1)] by simp
      then show False using c(2) m0 \<open>s = 0\<close> by simp
    qed
    then show ?thesis using K[OF ZLs[OF c(1)]] by simp
  qed
  \<comment> \<open>counting\<close>
  let ?A = "(\<lambda>c. main ! c) ` {1..N}"
  have cardA: "card ?A = N"
  proof -
    have "inj_on (\<lambda>c. main ! c) {1..N}"
    proof (rule inj_onI)
      fix x y assume "x \<in> {1..N}" "y \<in> {1..N}" "main ! x = main ! y"
      then show "x = y" using minj[of x y] by simp
    qed
    then have "card ?A = card {1..N}" by (rule card_image)
    then show ?thesis by simp
  qed
  have disj: "?A \<inter> set nonmain = {}" using main_not_nonmain by auto
  have sub: "?A \<union> set nonmain \<subseteq> {1..K}"
  proof
    fix s assume "s \<in> ?A \<union> set nonmain"
    then consider c where "1 \<le> c" "c \<le> N" "s = main ! c" | "s \<in> set nonmain" by auto
    then show "s \<in> {1..K}"
    proof cases
      case 1
      then show ?thesis using mnz[of c] K[OF ZLs[OF m1[of c]]] by simp
    next
      case 2 then show ?thesis using nm_pos by simp
    qed
  qed
  have "card (?A \<union> set nonmain) = card ?A + card (set nonmain)"
    using disj by (intro card_Un_disjoint) simp_all
  moreover have "card (?A \<union> set nonmain) \<le> card {1..K}" using sub by (intro card_mono) simp_all
  moreover have "card (set nonmain) = length nonmain" using dist by (rule distinct_card)
  ultimately have count: "N + length nonmain \<le> K" using cardA by simp
  then have lenle: "length nonmain \<le> (1 + K) - (1 + N)" by simp
  \<comment> \<open>the two dictionaries\<close>
  have main_keys: "fst ` set ?mainps = (\<lambda>c. main ! c) ` {0..N}" by (rule keys_index_pairs)
  have main_map: "map_of (dict_of ?mainps) (main ! c) = Some c" if c: "c \<le> N" for c
  proof (rule map_of_dict_of_unique)
    show "(main ! c, c) \<in> set ?mainps" using c by (rule mem_index_pairs)
    fix c' assume "(main ! c, c') \<in> set ?mainps"
    then have "c' \<le> N \<and> main ! c = main ! c'" by (rule index_pairs_D)
    then have "c' \<le> N" "main ! c' = main ! c" by simp_all
    then show "c' = c" using c minj[of c' c] by simp
  qed
  have nm_keys: "fst ` set ?nmps = set nonmain" using lenle by (rule keys_zip_upt)
  have nm_dk: "distinct (map fst ?nmps)"
  proof -
    have "map fst ?nmps = take (min (length nonmain) (length [1 + N..<1 + K])) nonmain"
      by (rule map_fst_zip_take)
    then show ?thesis using dist by simp
  qed
  have nm_zip: "map_of ?nmps (nonmain ! i) = Some (N + 1 + i)" if i: "i < length nonmain" for i
    using map_of_zip_upt[OF dist i lenle] by simp
  have nm_map: "map_of (dict_of ?nmps) (nonmain ! i) = Some (N + 1 + i)" if i: "i < length nonmain" for i
  proof (rule map_of_dict_of_unique)
    show "(nonmain ! i, N + 1 + i) \<in> set ?nmps" using nm_zip[OF i] by (rule map_of_SomeD)
    fix v' assume "(nonmain ! i, v') \<in> set ?nmps"
    then have "map_of ?nmps (nonmain ! i) = Some v'" using nm_dk by simp
    then show "v' = N + 1 + i" using nm_zip[OF i] by simp
  qed
  have s2n_map: "map_of s2n k = (case map_of (dict_of ?nmps) k of Some v \<Rightarrow> Some v
                                  | None \<Rightarrow> map_of (dict_of ?mainps) k)" for k
  proof -
    have r: "map_of (rev (dict_of ?nmps)) = map_of (dict_of ?nmps)"
      using distinct_dict_of[of ?nmps] by (rule map_of_rev_distinct)
    show ?thesis unfolding s2n_def map_of_dict_update by (simp only: r map_add_def)
  qed
  show "distinct (map fst s2n)" unfolding s2n_def by (intro distinct_dict_update distinct_dict_of)
  show mainv: "map_of s2n (main ! c) = Some c" if c: "c \<le> N" for c
  proof -
    have "main ! c \<notin> fst ` set ?nmps" using main_not_nonmain[OF c] nm_keys by simp
    then have "map_of (dict_of ?nmps) (main ! c) = None" by (rule map_of_dict_of_None)
    then show ?thesis using main_map[OF c] by (simp add: s2n_map)
  qed
  show nmv: "map_of s2n (nonmain ! i) = Some (N + 1 + i)" if i: "i < length nonmain" for i
    using nm_map[OF i] by (simp add: s2n_map)
  have keys: "fst ` set s2n = (\<lambda>c. main ! c) ` {0..N} \<union> set nonmain"
    unfolding s2n_def by (simp only: keys_dict_update keys_dict_of main_keys nm_keys)
  show "fst ` set s2n = insert 0 (set Ls)"
  proof (intro set_eqI iffI)
    fix s assume "s \<in> fst ` set s2n"
    then consider c where "c \<le> N" "s = main ! c" | "s \<in> set nonmain" using keys by auto
    then show "s \<in> insert 0 (set Ls)"
    proof cases
      case 1
      then show ?thesis using mZ[of c] ZLs by auto
    next
      case 2
      then obtain c where "(c, s) \<in> ?Z" using setnm by blast
      then show ?thesis using ZLs by simp
    qed
  next
    fix s assume s: "s \<in> insert 0 (set Ls)"
    show "s \<in> fst ` set s2n"
    proof (cases "s = 0")
      case True
      have "main ! 0 \<in> (\<lambda>c. main ! c) ` {0..N}" by simp
      then show ?thesis using True m0 keys by simp
    next
      case False
      then have "s \<in> snd ` ?Z" using s sndZ by simp
      then obtain c where c: "(c, s) \<in> ?Z" by force
      have cN: "c \<le> N" using c by (rule consr)
      show ?thesis
      proof (cases "s = main ! c")
        case True then show ?thesis using cN keys by auto
      next
        case False then show ?thesis using c setnm keys by blast
      qed
    qed
  qed
  show "length s2n = N + 1 + length nonmain"
  proof -
    have "length s2n = card (fst ` set (dict_of ?mainps) \<union> fst ` set (dict_of ?nmps))"
      unfolding s2n_def by (intro length_dict_update distinct_dict_of)
    also have "\<dots> = card ((\<lambda>c. main ! c) ` {0..N} \<union> set nonmain)"
      by (simp only: keys_dict_of main_keys nm_keys)
    also have "\<dots> = card ((\<lambda>c. main ! c) ` {0..N}) + card (set nonmain)"
      using main_not_nonmain by (intro card_Un_disjoint) auto
    also have "card ((\<lambda>c. main ! c) ` {0..N}) = card {0..N}"
    proof (intro card_image inj_onI)
      fix x y assume "x \<in> {0..N}" "y \<in> {0..N}" "main ! x = main ! y"
      then show "x = y" using minj[of x y] by simp
    qed
    finally show ?thesis using distinct_card[OF dist] by simp
  qed
  show "k = k'" if kv: "map_of s2n k = Some v" "map_of s2n k' = Some v" for k k' v
  proof -
    have cls: "(\<exists>c \<le> N. x = main ! c \<and> w = c) \<or> (\<exists>i < length nonmain. x = nonmain ! i \<and> w = N + 1 + i)"
      if x: "map_of s2n x = Some w" for x w
    proof -
      have "x \<in> fst ` set s2n" using x by (metis map_of_eq_None_iff option.distinct(1))
      then consider c where "c \<le> N" "x = main ! c" | "x \<in> set nonmain" using keys by auto
      then show ?thesis
      proof cases
        case 1 then show ?thesis using mainv[of c] x by auto
      next
        case 2
        then obtain i where "i < length nonmain" "x = nonmain ! i" by (auto simp: in_set_conv_nth)
        then show ?thesis using nmv[of i] x by auto
      qed
    qed
    from cls[OF kv(1)] cls[OF kv(2)] show ?thesis by auto
  qed
qed

lemma length_distinct_keys: "distinct (map fst d) \<Longrightarrow> length d = card (fst ` set d)"
proof -
  assume "distinct (map fst d)"
  then have "card (set (map fst d)) = length (map fst d)" by (rule distinct_card)
  then show ?thesis by simp
qed

lemma map_of_in_keys: "map_of d k = Some v \<Longrightarrow> k \<in> fst ` set d"
  by (metis map_of_eq_None_iff option.distinct(1))

lemma split_body_mappings_spec:
  assumes lab: "split_labelling (data Ac) (data As)"
    and cons: "\<And>c. (c \<in> set (data Ac) \<or> c = 0) \<longleftrightarrow> c \<le> N"
    and ne: "data Ac \<noteq> []"
  shows "\<exists>main nonmain s2n n2c.
      split_body_mappings Ac As = Inr (s2n, n2c)
    \<and> length main = N + 1 \<and> main ! 0 = 0
    \<and> (\<forall>c. 1 \<le> c \<and> c \<le> N \<longrightarrow> (c, main ! c) \<in> set (zip (data Ac) (data As)))
    \<and> (\<forall>c \<le> N. is_argmax (\<lambda>s. count_list (zip (data Ac) (data As)) (c, s))
                          (Max (set (data As)) + 1) (main ! c))
    \<and> sorted nonmain \<and> distinct nonmain
    \<and> set nonmain = {s. \<exists>c. (c, s) \<in> set (zip (data Ac) (data As)) \<and> s \<noteq> main ! c}
    \<and> distinct (map fst s2n) \<and> length s2n = N + 1 + length nonmain
    \<and> (\<forall>c \<le> N. map_of s2n (main ! c) = Some c)
    \<and> (\<forall>i < length nonmain. map_of s2n (nonmain ! i) = Some (N + 1 + i))
    \<and> fst ` set s2n = insert 0 (set (data As))
    \<and> distinct (map fst n2c)
    \<and> (\<forall>c \<le> N. map_of n2c c = Some c)
    \<and> (\<forall>i < length nonmain. \<exists>c. (c, nonmain ! i) \<in> set (zip (data Ac) (data As))
                                  \<and> map_of n2c (N + 1 + i) = Some c)
    \<and> fst ` set n2c = {v. v \<le> N + length nonmain}"
proof -
  let ?Lc = "data Ac" and ?Ls = "data As"
  let ?Z = "set (zip ?Lc ?Ls)"
  let ?K = "Max (set ?Ls)"
  obtain m main where ct: "contingency_table Ac As True = Inr (Sparse m)"
    and sh: "table_shape (Sparse m) = (N + 1, ?K + 1)"
    and ma: "matrix_argmax (Sparse m) 1 = Inr main"
    and nzs: "set (csr_nonzero m) = ?Z"
    and lenm: "length main = N + 1" and m0: "main ! 0 = 0"
    and m1: "\<forall>c. 1 \<le> c \<and> c \<le> N \<longrightarrow> (c, main ! c) \<in> ?Z"
    and am: "\<forall>c \<le> N. is_argmax (\<lambda>s. count_list (zip ?Lc ?Ls) (c, s)) (?K + 1) (main ! c)"
    using main_split_segments_spec[OF lab cons ne] by blast
  define nonzero where "nonzero = csr_nonzero m"
  define s2o where "s2o = AList.update 0 0 (dict_of (map (\<lambda>(r, c). (c, r)) nonzero))"
  define nonmain where "nonmain = np_unique (map snd (fold (\<lambda>(i, s) es. removeAll (i, s) es) (enumerate 0 main) nonzero))"
  define s2n where "s2n = dict_update (dict_of (map (\<lambda>orig. (main ! orig, orig)) [0..<1 + N]))
                    (dict_of (zip nonmain [1 + N..<1 + ?K]))"
  have nz: "set nonzero = ?Z" by (simp add: nonzero_def nzs)
  have consr: "\<forall>c s. (c, s) \<in> ?Z \<longrightarrow> c \<le> N"
  proof (intro allI impI)
    fix c s assume "(c, s) \<in> ?Z"
    then have "c \<in> set ?Lc" by (rule set_zip_leftD)
    then show "c \<le> N" using cons[of c] by simp
  qed
  have K: "\<forall>s \<in> set ?Ls. s \<le> ?K" by simp
  have m1': "(c, main ! c) \<in> ?Z" if "1 \<le> c" "c \<le> N" for c using m1 that by blast
  note o = split_to_orig_spec[OF lab nz, folded s2o_def]
  note n = split_to_nonconflicting_spec[OF lab consr nz lenm m0 m1 K, folded nonmain_def s2n_def]
  have leneq: "length s2n = length s2o"
    using length_distinct_keys[OF n(4)] length_distinct_keys[OF o(1)] n(8) o(2) by simp
  obtain n2s where n2s: "reverse_dict s2n = Inr n2s" "distinct (map fst n2s)" "length n2s = length s2n"
      "fst ` set n2s = snd ` set s2n" "\<forall>v k. map_of n2s v = Some k \<longleftrightarrow> (k, v) \<in> set s2n"
  proof -
    have "distinct (map snd s2n)" using n(4)
    proof (rule distinct_values)
      fix k k' v assume "map_of s2n k = Some v" "map_of s2n k' = Some v"
      then show "k = k'" by (rule n(9))
    qed
    then show ?thesis using reverse_dict_ok[OF n(4)] that by blast
  qed
  have n2s_map: "map_of n2s v = Some k \<longleftrightarrow> map_of s2n k = Some v" for v k
    using n2s(5) n(4) by (metis map_of_SomeD map_of_is_SomeI)
  have allkeys: "\<forall>kv \<in> set n2s. map_of s2o (snd kv) \<noteq> None"
  proof
    fix kv assume kv: "kv \<in> set n2s"
    obtain v k where e: "kv = (v, k)" by (cases kv)
    have "map_of n2s v = Some k" using kv e n2s(2) by simp
    then have "map_of s2n k = Some v" by (simp add: n2s_map)
    then have "k \<in> fst ` set s2n" by (rule map_of_in_keys)
    then have "k \<in> fst ` set s2o" using n(8) o(2) by simp
    then show "map_of s2o (snd kv) \<noteq> None" using e by (simp add: map_of_eq_None_iff)
  qed
  define n2c where "n2c = map (\<lambda>(k, v). (k, the (map_of s2o v))) n2s"
  have comp: "compose_mappings [n2s, s2o] = Inr n2c"
    using compose2_ok[OF allkeys] by (simp add: compose_mappings_def bind_def n2c_def)
  have lenc: "length n2c = length s2n" using n2s(3) by (simp add: n2c_def)
  have keysc: "map fst n2c = map fst n2s" unfolding n2c_def by (rule keys_compose)
  have n2c_map: "map_of n2c v = (case map_of n2s v of None \<Rightarrow> None | Some k \<Rightarrow> Some (the (map_of s2o k)))" for v
    unfolding n2c_def by (rule map_of_compose)
  have res: "split_body_mappings Ac As = Inr (s2n, n2c)"
    unfolding split_body_mappings_def
    by (simp only: ct ma sh bind_def sum.case table.case Let_def fst_conv snd_conv
        add_diff_cancel_right' nonzero_def[symmetric] s2o_def[symmetric] nonmain_def[symmetric]
        s2n_def[symmetric] leneq n2s(1) comp lenc simp_thms if_False)
  have c1: "map_of n2c c = Some c" if c: "c \<le> N" for c
  proof -
    have "map_of s2n (main ! c) = Some c" using c by (rule n(6))
    then have 1: "map_of n2s c = Some (main ! c)" by (simp add: n2s_map)
    have "map_of s2o (main ! c) = Some c"
    proof (cases "c = 0")
      case True then show ?thesis using m0 o(4) by simp
    next
      case False
      then have "(c, main ! c) \<in> ?Z" using m1'[of c] c by simp
      then show ?thesis by (rule o(3))
    qed
    then show ?thesis using 1 by (simp add: n2c_map)
  qed
  have c2: "\<exists>c. (c, nonmain ! i) \<in> ?Z \<and> map_of n2c (N + 1 + i) = Some c" if i: "i < length nonmain" for i
  proof -
    have "map_of s2n (nonmain ! i) = Some (N + 1 + i)" using i by (rule n(7))
    then have 1: "map_of n2s (N + 1 + i) = Some (nonmain ! i)" by (simp add: n2s_map)
    have "nonmain ! i \<in> set nonmain" using i by simp
    then obtain c where c: "(c, nonmain ! i) \<in> ?Z" using n(3) by blast
    then have "map_of s2o (nonmain ! i) = Some c" by (rule o(3))
    then have "map_of n2c (N + 1 + i) = Some c" using 1 by (simp add: n2c_map)
    then show ?thesis using c by blast
  qed
  have keys_n2c: "fst ` set n2c = {v. v \<le> N + length nonmain}"
  proof -
    have "fst ` set n2c = set (map fst n2c)" by simp
    also have "\<dots> = fst ` set n2s" by (simp only: keysc) simp
    also have "\<dots> = snd ` set s2n" by (rule n2s(4))
    finally have k: "fst ` set n2c = snd ` set s2n" .
    have sub: "{v. v \<le> N + length nonmain} \<subseteq> snd ` set s2n"
    proof
      fix v assume "v \<in> {v. v \<le> N + length nonmain}"
      then have v: "v \<le> N + length nonmain" by simp
      show "v \<in> snd ` set s2n"
      proof (cases "v \<le> N")
        case True
        then have "map_of s2n (main ! v) = Some v" by (rule n(6))
        then have "(main ! v, v) \<in> set s2n" by (rule map_of_SomeD)
        then show ?thesis by force
      next
        case False
        then have i: "v - (N + 1) < length nonmain" using v by simp
        have "map_of s2n (nonmain ! (v - (N + 1))) = Some (N + 1 + (v - (N + 1)))"
          using i by (rule n(7))
        then have "(nonmain ! (v - (N + 1)), v) \<in> set s2n" using False by (simp add: map_of_SomeD)
        then show ?thesis by force
      qed
    qed
    have "finite {v. v \<le> N + length nonmain}" by simp
    have "card (snd ` set s2n) \<le> length s2n" by (metis card_image_le card_length le_trans List.finite_set)
    moreover have "card {v. v \<le> N + length nonmain} = N + 1 + length nonmain"
    proof -
      have "{v. v \<le> N + length nonmain} = {0..N + length nonmain}" by auto
      then show ?thesis by simp
    qed
    ultimately have "card (snd ` set s2n) \<le> card {v. v \<le> N + length nonmain}" using n(5) by simp
    then have "snd ` set s2n = {v. v \<le> N + length nonmain}"
      using sub by (intro card_seteq[symmetric]) simp_all
    then show ?thesis using k by simp
  qed
  have dk: "distinct (map fst n2c)" using n2s(2) by (simp only: keysc)
  have P6: "\<forall>c \<le> N. map_of s2n (main ! c) = Some c" using n(6) by blast
  have P7: "\<forall>i < length nonmain. map_of s2n (nonmain ! i) = Some (N + 1 + i)" using n(7) by blast
  have Pc1: "\<forall>c \<le> N. map_of n2c c = Some c" using c1 by blast
  have Pc2: "\<forall>i < length nonmain. \<exists>c. (c, nonmain ! i) \<in> ?Z \<and> map_of n2c (N + 1 + i) = Some c"
    using c2 by blast
  show ?thesis
    by (rule exI[of _ main], rule exI[of _ nonmain], rule exI[of _ s2n], rule exI[of _ n2c],
        intro conjI)
       (fact res lenm m0 m1 am n(1) n(2) n(3) n(4) n(5) P6 P7 n(8) dk Pc1 Pc2 keys_n2c)+
qed

section \<open>The split relabelling as a whole\<close>

lemma relabelConsecutive_maps:
  assumes rc: "relabelConsecutive A = (Ac, N, o2c)"
  shows "\<exists>c2o. reverse_dict o2c = Inr c2o \<and> distinct (map fst c2o)
           \<and> fst ` set c2o = {c. c \<le> N}
           \<and> (\<forall>c x. map_of c2o c = Some x \<longleftrightarrow> map_of o2c x = Some c)"
    and "map_of o2c 0 = Some 0"
    and "\<And>x c. map_of o2c x = Some c \<Longrightarrow> c \<le> N \<and> x \<in> insert 0 (set (data A)) \<and> (c = 0 \<longleftrightarrow> x = 0)"
    and "\<And>x. x \<in> insert 0 (set (data A)) \<Longrightarrow> \<exists>c. map_of o2c x = Some c"
    and "\<And>c. c \<le> N \<Longrightarrow> \<exists>x. map_of o2c x = Some c"
    and "\<And>x x' c. map_of o2c x = Some c \<Longrightarrow> map_of o2c x' = Some c \<Longrightarrow> x = x'"
    and "\<And>i. i < length (data A) \<Longrightarrow> map_of o2c (data A ! i) = Some (data Ac ! i)"
    and "length (data Ac) = length (data A)"
proof -
  note s = relabelConsecutive_spec[OF rc]
  have dv: "distinct (map snd o2c)" by (simp only: s(2)) simp
  have vals: "snd ` set o2c = {c. c \<le> N}"
  proof -
    have "snd ` set o2c = set (map snd o2c)" by simp
    also have "\<dots> = set [0..<N + 1]" by (simp only: s(2))
    also have "\<dots> = {c. c \<le> N}" by auto
    finally show ?thesis .
  qed
  have inj: "x = x'" if "map_of o2c x = Some c" "map_of o2c x' = Some c" for x x' c
  proof -
    have "(x, c) \<in> set o2c" "(x', c) \<in> set o2c" using that by (simp_all add: map_of_SomeD)
    moreover have "inj_on snd (set o2c)" using dv by (simp add: distinct_map)
    ultimately have "(x, c) = (x', c)" by (intro inj_onD[of snd "set o2c"]) simp_all
    then show ?thesis by simp
  qed
  show "\<And>x x' c. map_of o2c x = Some c \<Longrightarrow> map_of o2c x' = Some c \<Longrightarrow> x = x'" by (rule inj)
  show z: "map_of o2c 0 = Some 0" using s(1,4) by simp
  show p3: "c \<le> N \<and> x \<in> insert 0 (set (data A)) \<and> (c = 0 \<longleftrightarrow> x = 0)" if m: "map_of o2c x = Some c" for x c
  proof -
    have mem: "(x, c) \<in> set o2c" using m by (rule map_of_SomeD)
    then have "c \<in> snd ` set o2c" by force
    then have 1: "c \<le> N" using vals by simp
    have "x \<in> fst ` set o2c" using mem by force
    then have 2: "x \<in> insert 0 (set (data A))" using s(5) by simp
    have 3: "c = 0 \<longleftrightarrow> x = 0"
    proof
      assume "c = 0" then show "x = 0" using inj[OF m[unfolded \<open>c = 0\<close>] z] by simp
    next
      assume "x = 0" then show "c = 0" using m z by simp
    qed
    show ?thesis using 1 2 3 by blast
  qed
  show p4: "\<exists>c. map_of o2c x = Some c" if "x \<in> insert 0 (set (data A))" for x
  proof -
    have "x \<in> fst ` set o2c" using that s(5) by simp
    then show ?thesis by (cases "map_of o2c x") (simp_all add: map_of_eq_None_iff)
  qed
  show "\<exists>x. map_of o2c x = Some c" if "c \<le> N" for c
  proof -
    have "c \<in> snd ` set o2c" using that vals by simp
    then obtain x where "(x, c) \<in> set o2c" by force
    then have "map_of o2c x = Some c" using s(1) by simp
    then show ?thesis by blast
  qed
  show "map_of o2c (data A ! i) = Some (data Ac ! i)" if i: "i < length (data A)" for i
  proof -
    have "data A ! i \<in> insert 0 (set (data A))" using i by simp
    then obtain c where c: "map_of o2c (data A ! i) = Some c" using p4 by blast
    then show ?thesis using i by (simp add: s(7))
  qed
  show "length (data Ac) = length (data A)" by (simp add: s(7))
  obtain c2o where c2o: "reverse_dict o2c = Inr c2o" "distinct (map fst c2o)"
      "fst ` set c2o = snd ` set o2c" "\<forall>v k. map_of c2o v = Some k \<longleftrightarrow> (k, v) \<in> set o2c"
    using reverse_dict_ok[OF s(1) dv] by blast
  have "map_of c2o c = Some x \<longleftrightarrow> map_of o2c x = Some c" for c x
    using c2o(4) s(1) by (metis map_of_SomeD map_of_is_SomeI)
  then show "\<exists>c2o. reverse_dict o2c = Inr c2o \<and> distinct (map fst c2o)
           \<and> fst ` set c2o = {c. c \<le> N}
           \<and> (\<forall>c x. map_of c2o c = Some x \<longleftrightarrow> map_of o2c x = Some c)"
    using c2o(1,2,3) vals by (intro exI[of _ c2o]) simp
qed

lemma map_of_zip_upt_upt:
  "map_of (zip [a..<a + M] [b..<b + M]) k
   = (if a \<le> k \<and> k < a + M then Some (b + (k - a)) else None)"
proof (cases "a \<le> k \<and> k < a + M")
  case True
  define i where "i = k - a"
  have i: "i < M" "k = a + i" using True unfolding i_def by auto
  have "map_of (zip [a..<a + M] [b..<b + M]) ([a..<a + M] ! i) = Some ([b..<b + M] ! i)"
    using i(1) by (intro map_of_zip_nth) simp_all
  then show ?thesis using True i by simp
next
  case False
  then have "k \<notin> fst ` set (zip [a..<a + M] [b..<b + M])"
    by (auto dest: set_zip_leftD)
  then have "map_of (zip [a..<a + M] [b..<b + M]) k = None"
    by (simp only: map_of_eq_None_iff not_False_eq_True)
  then show ?thesis by (simp only: False if_False)
qed

lemma map_of_dict_of_zip_upt:
  "map_of (rev (dict_of (zip [a..<a + M] [b..<b + M]))) k
   = (if a \<le> k \<and> k < a + M then Some (b + (k - a)) else None)"
proof -
  let ?zs = "zip [a..<a + M] [b..<b + M]"
  have dz: "distinct (map fst ?zs)" by simp
  have "map_of (rev (dict_of ?zs)) = map_of (dict_of ?zs)"
    using distinct_dict_of by (rule map_of_rev_distinct)
  also have "\<dots> = map_of (rev ?zs)" by (rule map_of_dict_of)
  also have "\<dots> = map_of ?zs" using dz by (rule map_of_rev_distinct)
  finally show ?thesis by (simp only: map_of_zip_upt_upt)
qed

lemma combined_labels_spec:
  fixes c2o :: "(nat \<times> nat) list"
  assumes dk: "distinct (map fst c2o)" and keys: "fst ` set c2o = {c. c \<le> N}"
    and vals: "\<forall>c x. map_of c2o c = Some x \<longrightarrow> x \<le> mo"
    and inj: "\<forall>c c' x. map_of c2o c = Some x \<longrightarrow> map_of c2o c' = Some x \<longrightarrow> c = c'"
    and d: "d = dict_update c2o (dict_of (zip [1 + N..<1 + N + M] [1 + mo..<1 + mo + M]))"
  shows "distinct (map fst d)" and "fst ` set d = {v. v \<le> N + M}"
    and "\<forall>c \<le> N. map_of d c = map_of c2o c"
    and "\<forall>i < M. map_of d (N + 1 + i) = Some (mo + 1 + i)"
    and "distinct (map snd d)"
proof -
  let ?zs = "zip [1 + N..<1 + N + M] [1 + mo..<1 + mo + M]"
  define hi where "hi k = (1 + N \<le> k \<and> k < 1 + N + M)" for k
  have m: "map_of d k = (if hi k then Some (1 + mo + (k - (1 + N))) else map_of c2o k)" for k
    unfolding d map_of_dict_update map_add_def map_of_dict_of_zip_upt hi_def by simp
  show dd: "distinct (map fst d)" unfolding d using dk by (rule distinct_dict_update)
  have "fst ` set d = fst ` set c2o \<union> fst ` set ?zs"
    unfolding d by (simp only: keys_dict_update keys_dict_of)
  also have "fst ` set ?zs = set [1 + N..<1 + N + M]"
    by (metis length_upt add_diff_cancel_left' map_fst_zip set_map)
  finally show "fst ` set d = {v. v \<le> N + M}" using keys by auto
  show low: "\<forall>c \<le> N. map_of d c = map_of c2o c" by (simp add: m hi_def)
  show high: "\<forall>i < M. map_of d (N + 1 + i) = Some (mo + 1 + i)" by (simp add: m hi_def)
  have hiv: "v = 1 + mo + (k - (1 + N))" if "hi k" "map_of d k = Some v" for k v
    using that m[of k] by simp
  have lov: "map_of c2o k = Some v" if "\<not> hi k" "map_of d k = Some v" for k v
    using that m[of k] by simp
  show "distinct (map snd d)"
  proof (rule distinct_values[OF dd])
    fix k k' v assume a: "map_of d k = Some v" "map_of d k' = Some v"
    show "k = k'"
    proof (cases "hi k")
      case True
      note v = hiv[OF True a(1)]
      show ?thesis
      proof (cases "hi k'")
        case T: True
        note v' = hiv[OF T a(2)]
        show ?thesis using v v' True T unfolding hi_def by linarith
      next
        case False
        have "v \<le> mo" using lov[OF False a(2)] vals by blast
        then show ?thesis using v by linarith
      qed
    next
      case False
      note c = lov[OF False a(1)]
      have le: "v \<le> mo" using c vals by blast
      show ?thesis
      proof (cases "hi k'")
        case True
        note v' = hiv[OF True a(2)]
        show ?thesis using le v' by linarith
      next
        case F: False
        show ?thesis using c lov[OF F a(2)] inj by blast
      qed
    qed
  qed
qed

lemma foldl_cond_update:
  "foldl (\<lambda>d (k, v). if P v then AList.update k v d else d) d xs
   = dict_update d (filter (\<lambda>(k, v). P v) xs)"
proof (induction xs arbitrary: d)
  case Nil
  then show ?case by (simp add: dict_update_def)
next
  case (Cons p xs)
  obtain k v where p: "p = (k, v)" by (cases p)
  show ?case using Cons.IH by (simp add: p dict_update_def)
qed

lemma new_to_orig_spec:
  fixes ows2o :: "(nat \<times> nat) list"
  assumes dk: "distinct (map fst ows2o)"
    and minimal: "minimal = filter (\<lambda>(k, v). k > mo) ows2o"
    and S: "S = set (map snd minimal)"
    and n2o: "n2o = foldl (\<lambda>d (k, v). if v \<in> S then AList.update k v d else d)
                      (dict_of minimal) ows2o"
  shows "map_of n2o y = Some v \<longleftrightarrow> map_of ows2o y = Some v \<and> v \<in> S"
proof -
  let ?f = "filter (\<lambda>(k, v). v \<in> S) ows2o"
  have df: "distinct (map fst ?f)" using dk by (simp add: distinct_map_filter)
  have dm: "distinct (map fst minimal)" unfolding minimal using dk by (simp add: distinct_map_filter)
  have mf: "map_of ?f y = Some v \<longleftrightarrow> map_of ows2o y = Some v \<and> v \<in> S" for y v
  proof
    assume "map_of ?f y = Some v"
    then have "(y, v) \<in> set ?f" by (rule map_of_SomeD)
    then show "map_of ows2o y = Some v \<and> v \<in> S" using dk by simp
  next
    assume "map_of ows2o y = Some v \<and> v \<in> S"
    then have "(y, v) \<in> set ?f" by (auto dest: map_of_SomeD)
    then show "map_of ?f y = Some v" using df by simp
  qed
  have mm: "map_of minimal y = Some v \<Longrightarrow> map_of ?f y = Some v" for y v
  proof -
    assume a: "map_of minimal y = Some v"
    then have mem: "(y, v) \<in> set minimal" by (rule map_of_SomeD)
    then have "v \<in> S" unfolding S by force
    moreover have "(y, v) \<in> set ows2o" using mem unfolding minimal by simp
    ultimately show ?thesis using dk mf by simp
  qed
  have sub: "map_of ?f y = None \<Longrightarrow> map_of minimal y = None" for y
    using mm[of y] by (cases "map_of minimal y") auto
  have "map_of n2o = map_of (dict_of minimal) ++ map_of (rev ?f)"
    unfolding n2o foldl_cond_update map_of_dict_update ..
  also have "map_of (dict_of minimal) = map_of minimal"
    unfolding map_of_dict_of using dm by (rule map_of_rev_distinct)
  also have "map_of (rev ?f) = map_of ?f" using df by (rule map_of_rev_distinct)
  finally have "map_of n2o y = (map_of minimal ++ map_of ?f) y" by simp
  also have "\<dots> = map_of ?f y" using sub[of y] by (cases "map_of ?f y") (simp_all add: map_add_def)
  finally show ?thesis using mf by simp
qed

lemma split_disconnected_bodies_spec:
  assumes rc: "relabelConsecutive A = (Ac, N, o2c)"
    and As: "cc Ac = As"
    and sh: "shape As = shape A"
    and lab: "split_labelling (data Ac) (data As)"
    and ne: "data A \<noteq> []"
    and mo: "mo = Max (insert 0 (set (data A)))"
  shows "\<exists>main nonmain Lnew n2o.
      split_disconnected_bodies cc A = Inr (Lnew, n2o)
    \<and> shape Lnew = shape A \<and> length (data Lnew) = length (data A)
    \<and> length main = N + 1 \<and> main ! 0 = 0
    \<and> (\<forall>c \<le> N. is_argmax (\<lambda>s. count_list (zip (data Ac) (data As)) (c, s))
                          (Max (set (data As)) + 1) (main ! c))
    \<and> distinct nonmain
    \<and> set nonmain = {s. \<exists>c. (c, s) \<in> set (zip (data Ac) (data As)) \<and> s \<noteq> main ! c}
    \<and> (\<forall>i < length (data A). data As ! i = main ! (data Ac ! i)
           \<longrightarrow> data Lnew ! i = data A ! i)
    \<and> (\<forall>i < length (data A). \<forall>k < length nonmain. data As ! i = nonmain ! k
           \<longrightarrow> data Lnew ! i = mo + 1 + k \<and> map_of n2o (mo + 1 + k) = Some (data A ! i))
    \<and> (\<forall>y v. map_of n2o y = Some v \<longleftrightarrow>
           ((y = v \<and> (\<exists>i < length (data A). data A ! i = v
                          \<and> data As ! i \<noteq> main ! (data Ac ! i)))
          \<or> (\<exists>i < length (data A). \<exists>k < length nonmain.
                 data As ! i = nonmain ! k \<and> y = mo + 1 + k \<and> v = data A ! i)))
    \<and> distinct (map fst n2o)"
proof -
  let ?Lc = "data Ac" and ?Ls = "data As" and ?L = "data A"
  let ?Z = "set (zip ?Lc ?Ls)"
  let ?n = "length ?L"
  note rs = relabelConsecutive_spec[OF rc]
  note rm = relabelConsecutive_maps[OF rc]
  obtain c2o where c2o: "reverse_dict o2c = Inr c2o" "distinct (map fst c2o)"
      "fst ` set c2o = {c. c \<le> N}" "\<forall>c x. map_of c2o c = Some x \<longleftrightarrow> map_of o2c x = Some c"
    using rm(1) by blast
  have lenc: "length ?Lc = ?n" by (rule rm(8))
  have o2c_nth: "map_of o2c (?L ! i) = Some (?Lc ! i)" if "i < ?n" for i using that by (rule rm(7))
  have c2o_nth: "map_of c2o (?Lc ! i) = Some (?L ! i)" if "i < ?n" for i
    using o2c_nth[OF that] c2o(4) by blast
  have cons: "(c \<in> set ?Lc \<or> c = 0) \<longleftrightarrow> c \<le> N" for c
  proof
    assume "c \<in> set ?Lc \<or> c = 0"
    then show "c \<le> N"
    proof
      assume "c \<in> set ?Lc"
      then obtain i where i: "i < ?n" "c = ?Lc ! i" using lenc by (auto simp: in_set_conv_nth)
      show ?thesis using rm(3)[OF o2c_nth[OF i(1)]] i(2) by simp
    qed simp
  next
    assume c: "c \<le> N"
    obtain x where x: "map_of o2c x = Some c" using rm(5)[OF c] by blast
    have xin: "x \<in> insert 0 (set ?L)" and z: "c = 0 \<longleftrightarrow> x = 0" using rm(3)[OF x] by simp_all
    show "c \<in> set ?Lc \<or> c = 0"
    proof (cases "x = 0")
      case True then show ?thesis using z by simp
    next
      case False
      then obtain i where i: "i < ?n" "x = ?L ! i" using xin by (auto simp: in_set_conv_nth)
      have "?Lc ! i = c" using o2c_nth[OF i(1)] x i(2) by simp
      then show ?thesis using i(1) lenc by (metis nth_mem)
    qed
  qed
  have nec: "?Lc \<noteq> []" using ne lenc by (metis length_0_conv)
  from split_body_mappings_spec[OF lab cons nec] obtain main nonmain s2n n2c where
        sbm: "split_body_mappings Ac As = Inr (s2n, n2c)"
    and lenm: "length main = N + 1" and m0: "main ! 0 = 0"
    and m1: "\<forall>c. 1 \<le> c \<and> c \<le> N \<longrightarrow> (c, main ! c) \<in> ?Z"
    and am: "\<forall>c \<le> N. is_argmax (\<lambda>s. count_list (zip ?Lc ?Ls) (c, s)) (Max (set ?Ls) + 1) (main ! c)"
    and snm: "sorted nonmain" and dnm: "distinct nonmain"
    and setnm: "set nonmain = {s. \<exists>c. (c, s) \<in> ?Z \<and> s \<noteq> main ! c}"
    and dks: "distinct (map fst s2n)" and lens: "length s2n = N + 1 + length nonmain"
    and s2n_main: "\<forall>c \<le> N. map_of s2n (main ! c) = Some c"
    and s2n_nm: "\<forall>i < length nonmain. map_of s2n (nonmain ! i) = Some (N + 1 + i)"
    and keys_s: "fst ` set s2n = insert 0 (set ?Ls)"
    and dkn: "distinct (map fst n2c)"
    and n2c_low: "\<forall>c \<le> N. map_of n2c c = Some c"
    and n2c_hi: "\<forall>i < length nonmain. \<exists>c. (c, nonmain ! i) \<in> ?Z \<and> map_of n2c (N + 1 + i) = Some c"
    and keys_n: "fst ` set n2c = {v. v \<le> N + length nonmain}"
    by (elim exE conjE) (rule that, assumption+)
  define M where "M = length nonmain"
  have lensplit: "length ?Ls = ?n" using split_labelling_pairs(1)[OF lab] lenc by simp
  have Zi: "(?Lc ! i, ?Ls ! i) \<in> ?Z" if "i < ?n" for i
    using that lenc lensplit by (auto simp: in_set_zip)
  have Zex: "\<exists>i < ?n. ?Lc ! i = c \<and> ?Ls ! i = s" if "(c, s) \<in> ?Z" for c s
    using that lenc lensplit by (auto simp: in_set_zip)
  have consr: "c \<le> N" if "(c, s) \<in> ?Z" for c s
  proof -
    have "c \<in> set ?Lc" using that by (rule set_zip_leftD)
    then show ?thesis using cons[of c] by simp
  qed
  have same: "c = c'" if "(c, s) \<in> ?Z" "(c', s) \<in> ?Z" for c c' s
    using that by (rule split_labelling_pairs(3)[OF lab])
  have nm_mem: "\<exists>i < ?n. ?Ls ! i = nonmain ! k \<and> ?Ls ! i \<noteq> main ! (?Lc ! i)" if "k < M" for k
  proof -
    have "nonmain ! k \<in> set nonmain" using that by (simp add: M_def)
    then obtain c where c: "(c, nonmain ! k) \<in> ?Z" "nonmain ! k \<noteq> main ! c" using setnm by blast
    obtain i where "i < ?n" "?Lc ! i = c" "?Ls ! i = nonmain ! k" using Zex[OF c(1)] by blast
    then show ?thesis using c(2) by auto
  qed
  have cls: "?Ls ! i = main ! (?Lc ! i) \<or> (\<exists>k < M. ?Ls ! i = nonmain ! k)" if i: "i < ?n" for i
  proof (cases "?Ls ! i = main ! (?Lc ! i)")
    case True then show ?thesis by simp
  next
    case False
    then have "?Ls ! i \<in> set nonmain" using Zi[OF i] setnm by blast
    then show ?thesis by (auto simp: in_set_conv_nth M_def)
  qed
  have nm_not_main: "?Ls ! i \<noteq> main ! (?Lc ! i)"
    if i: "i < ?n" and k: "k < M" and eq: "?Ls ! i = nonmain ! k" for i k
  proof -
    obtain j where j: "j < ?n" "?Ls ! j = nonmain ! k" "?Ls ! j \<noteq> main ! (?Lc ! j)"
      using nm_mem[OF k] by blast
    have "(?Lc ! j, nonmain ! k) \<in> ?Z" using Zi[OF j(1)] j(2) by simp
    moreover have "(?Lc ! i, nonmain ! k) \<in> ?Z" using Zi[OF i] eq by simp
    ultimately have "?Lc ! j = ?Lc ! i" by (rule same)
    then show ?thesis using j eq by simp
  qed
  have moeq: "Max (set (map fst o2c)) = mo" unfolding mo using rs(5) by simp
  have le_mo: "x \<le> mo" if "x \<in> insert 0 (set ?L)" for x
    unfolding mo using that by (intro Max_ge) simp_all
  have numsplits: "length s2n - N - 1 = M" using lens M_def by simp
  define d where "d = dict_update c2o (dict_of (zip [1 + N..<1 + N + M] [1 + mo..<1 + mo + M]))"
  have vals: "\<forall>c x. map_of c2o c = Some x \<longrightarrow> x \<le> mo"
  proof (intro allI impI)
    fix c x assume "map_of c2o c = Some x"
    then have "map_of o2c x = Some c" using c2o(4) by blast
    then have "x \<in> insert 0 (set ?L)" using rm(3) by blast
    then show "x \<le> mo" by (rule le_mo)
  qed
  have inj: "\<forall>c c' x. map_of c2o c = Some x \<longrightarrow> map_of c2o c' = Some x \<longrightarrow> c = c'"
  proof (intro allI impI)
    fix c c' x assume "map_of c2o c = Some x" "map_of c2o c' = Some x"
    then have "map_of o2c x = Some c" "map_of o2c x = Some c'" using c2o(4) by blast+
    then show "c = c'" by simp
  qed
  note dd = combined_labels_spec[OF c2o(2) c2o(3) vals inj d_def]
  have s2n_val: "v \<le> N + M" if kv: "map_of s2n k = Some v" for k v
  proof -
    have "k \<in> fst ` set s2n" using kv by (rule map_of_in_keys)
    then have k: "k = 0 \<or> k \<in> set ?Ls" using keys_s by auto
    show ?thesis
    proof (cases "k = 0")
      case True
      have "map_of s2n (main ! 0) = Some 0" using s2n_main by blast
      then show ?thesis using kv True m0 by simp
    next
      case False
      then obtain i where i: "i < ?n" "k = ?Ls ! i" using k lensplit by (auto simp: in_set_conv_nth)
      show ?thesis using cls[OF i(1)]
      proof
        assume a: "?Ls ! i = main ! (?Lc ! i)"
        have c: "?Lc ! i \<le> N" using consr[OF Zi[OF i(1)]] .
        then have "map_of s2n (main ! (?Lc ! i)) = Some (?Lc ! i)" using s2n_main by blast
        then show ?thesis using kv i(2) a c by simp
      next
        assume "\<exists>k < M. ?Ls ! i = nonmain ! k"
        then obtain j where j: "j < M" "?Ls ! i = nonmain ! j" by blast
        have "map_of s2n (nonmain ! j) = Some (N + 1 + j)" using s2n_nm j(1) M_def by blast
        then show ?thesis using kv i(2) j by simp
      qed
    qed
  qed
  have all1: "\<forall>kv \<in> set s2n. map_of d (snd kv) \<noteq> None"
  proof
    fix kv assume kv: "kv \<in> set s2n"
    obtain k v where e: "kv = (k, v)" by (cases kv)
    have "map_of s2n k = Some v" using kv e dks by simp
    then have "v \<le> N + M" by (rule s2n_val)
    then have "v \<in> fst ` set d" using dd(2) by simp
    then show "map_of d (snd kv) \<noteq> None" using e by (simp add: map_of_eq_None_iff)
  qed
  define s2ows where "s2ows = map (\<lambda>(k, v). (k, the (map_of d v))) s2n"
  have comp1: "compose_mappings [s2n, d] = Inr s2ows"
    using compose2_ok[OF all1] by (simp add: compose_mappings_def bind_def s2ows_def)
  have s2ows_map: "map_of s2ows k
      = (case map_of s2n k of None \<Rightarrow> None | Some v \<Rightarrow> Some (the (map_of d v)))" for k
    unfolding s2ows_def by (rule map_of_compose)
  have s2n_key: "\<exists>v. map_of s2n s = Some v" if "s \<in> set ?Ls" for s
  proof -
    have "s \<in> fst ` set s2n" using that keys_s by simp
    then show ?thesis by (cases "map_of s2n s") (auto simp: map_of_eq_None_iff)
  qed
  have nomiss: "\<not> list_ex (\<lambda>x. map_of s2ows x = None) ?Ls"
  proof -
    have "map_of s2ows x \<noteq> None" if "x \<in> set ?Ls" for x
      using s2n_key[OF that] by (auto simp: s2ows_map)
    then show ?thesis by (auto simp: list_ex_iff)
  qed
  define Lnew where "Lnew = As\<lparr>data := map (\<lambda>x. case map_of s2ows x of Some y \<Rightarrow> y | None \<Rightarrow> x) ?Ls\<rparr>"
  have app: "applyMapping As s2ows False = Inr Lnew"
    using nomiss by (simp add: applyMapping_def Lnew_def)
  have Lnew_nth: "data Lnew ! i = the (map_of d v)" if "i < ?n" "map_of s2n (?Ls ! i) = Some v" for i v
    unfolding Lnew_def using that lensplit by (simp add: s2ows_map)
  have Lnew_sh: "shape Lnew = shape A" "length (data Lnew) = ?n"
    using sh lensplit by (simp_all add: Lnew_def)
  obtain d' where d': "reverse_dict d = Inr d'" "distinct (map fst d')"
      "fst ` set d' = snd ` set d" "\<forall>v k. map_of d' v = Some k \<longleftrightarrow> (k, v) \<in> set d"
    using reverse_dict_ok[OF dd(1) dd(5)] by blast
  have d'_map: "map_of d' v = Some k \<longleftrightarrow> map_of d k = Some v" for v k
    using d'(4) dd(1) by (metis map_of_SomeD map_of_is_SomeI)
  have d_key: "k \<le> N + M" if "map_of d k = Some v" for k v
  proof -
    have "k \<in> fst ` set d" using that by (rule map_of_in_keys)
    then show ?thesis using dd(2) by simp
  qed
  have all2: "\<forall>kv \<in> set d'. map_of n2c (snd kv) \<noteq> None"
  proof
    fix kv assume kv: "kv \<in> set d'"
    obtain v k where e: "kv = (v, k)" by (cases kv)
    have "map_of d' v = Some k" using kv e d'(2) by simp
    then have "map_of d k = Some v" by (simp add: d'_map)
    then have "k \<le> N + M" by (rule d_key)
    then have "k \<in> fst ` set n2c" using keys_n M_def by simp
    then show "map_of n2c (snd kv) \<noteq> None" using e by (simp add: map_of_eq_None_iff)
  qed
  define e1 where "e1 = map (\<lambda>(k, v). (k, the (map_of n2c v))) d'"
  have n2c_val: "the (map_of n2c k) \<le> N" if k: "k \<le> N + M" for k
  proof (cases "k \<le> N")
    case True
    then have "map_of n2c k = Some k" using n2c_low by blast
    then show ?thesis using True by simp
  next
    case False
    define i where "i = k - (N + 1)"
    have i: "i < length nonmain" "k = N + 1 + i" using False k by (simp_all add: i_def M_def)
    obtain c where c: "(c, nonmain ! i) \<in> ?Z" "map_of n2c (N + 1 + i) = Some c"
      using n2c_hi i(1) by blast
    show ?thesis using c(2) i(2) consr[OF c(1)] by simp
  qed
  have all3: "\<forall>kv \<in> set e1. map_of c2o (snd kv) \<noteq> None"
  proof
    fix kv assume "kv \<in> set e1"
    then obtain v k where vk: "(v, k) \<in> set d'" "kv = (v, the (map_of n2c k))"
      by (auto simp: e1_def)
    have "map_of d' v = Some k" using vk(1) d'(2) by simp
    then have "map_of d k = Some v" by (simp add: d'_map)
    then have "k \<le> N + M" by (rule d_key)
    then have "the (map_of n2c k) \<le> N" by (rule n2c_val)
    then have "the (map_of n2c k) \<in> fst ` set c2o" using c2o(3) by simp
    then show "map_of c2o (snd kv) \<noteq> None" using vk(2) by (simp add: map_of_eq_None_iff)
  qed
  define ows2o where "ows2o = map (\<lambda>(k, v). (k, the (map_of c2o v))) e1"
  have comp2: "compose_mappings [d', n2c, c2o] = Inr ows2o"
    using compose2_ok[OF all2] compose2_ok[OF all3]
    by (simp add: compose_mappings_def bind_def e1_def ows2o_def)
  have ows2o_map: "map_of ows2o y = (case map_of d' y of None \<Rightarrow> None
        | Some k \<Rightarrow> Some (the (map_of c2o (the (map_of n2c k)))))" for y
    unfolding ows2o_def e1_def map_of_compose by (simp split: option.splits)
  have dk_ows: "distinct (map fst ows2o)"
    unfolding ows2o_def e1_def keys_compose by (rule d'(2))
  define minimal where "minimal = filter (\<lambda>(k, v). k > mo) ows2o"
  define S where "S = set (map snd minimal)"
  define n2o where "n2o = foldl (\<lambda>d (k, v). if v \<in> S then AList.update k v d else d)
                      (dict_of minimal) ows2o"
  note n2o_map = new_to_orig_spec[OF dk_ows minimal_def S_def n2o_def]
  have run: "split_disconnected_bodies cc A = Inr (Lnew, n2o)"
    unfolding split_disconnected_bodies_def
    by (simp only: rc prod.case Let_def moeq c2o(1) bind_def sum.case As sbm numsplits
        d_def[symmetric] comp1 sh simp_thms if_False app d'(1) comp2 minimal_def[symmetric]
        S_def[symmetric] n2o_def[symmetric])
  have ows_orig: "map_of ows2o x = Some x" if x: "x \<in> insert 0 (set ?L)" for x
  proof -
    obtain c where c: "map_of o2c x = Some c" using rm(4)[OF x] by blast
    have cN: "c \<le> N" using rm(3)[OF c] by simp
    have "map_of c2o c = Some x" using c c2o(4) by blast
    then have "map_of d c = Some x" using dd(3) cN by simp
    then have 1: "map_of d' x = Some c" by (simp add: d'_map)
    have 2: "map_of n2c c = Some c" using n2c_low cN by blast
    show ?thesis using 1 2 \<open>map_of c2o c = Some x\<close> by (simp add: ows2o_map)
  qed
  have ows_new: "map_of ows2o (mo + 1 + k) = Some (?L ! i)"
    if i: "i < ?n" and k: "k < M" and eq: "?Ls ! i = nonmain ! k" for i k
  proof -
    have "map_of d (N + 1 + k) = Some (mo + 1 + k)" using dd(4) k by blast
    then have 1: "map_of d' (mo + 1 + k) = Some (N + 1 + k)" by (simp add: d'_map)
    obtain c where c: "(c, nonmain ! k) \<in> ?Z" "map_of n2c (N + 1 + k) = Some c"
      using n2c_hi k M_def by blast
    have "(?Lc ! i, nonmain ! k) \<in> ?Z" using Zi[OF i] eq by simp
    then have "c = ?Lc ! i" using c(1) by (intro same)
    then have "map_of c2o c = Some (?L ! i)" using c2o_nth[OF i] by simp
    then show ?thesis using 1 c(2) by (simp add: ows2o_map)
  qed
  have ows_dom: "(y \<in> insert 0 (set ?L) \<and> v = y) \<or> (\<exists>k < M. y = mo + 1 + k)"
    if yv: "map_of ows2o y = Some v" for y v
  proof -
    obtain k' where k': "map_of d' y = Some k'"
      using yv by (cases "map_of d' y") (simp_all add: ows2o_map)
    then have dk: "map_of d k' = Some y" by (simp add: d'_map)
    then have le: "k' \<le> N + M" by (rule d_key)
    show ?thesis
    proof (cases "k' \<le> N")
      case True
      then have "map_of c2o k' = Some y" using dd(3) dk by simp
      then have "map_of o2c y = Some k'" using c2o(4) by blast
      then have y: "y \<in> insert 0 (set ?L)" using rm(3) by blast
      then show ?thesis using ows_orig[OF y] yv by simp
    next
      case False
      define k where "k = k' - (N + 1)"
      have k: "k < M" "k' = N + 1 + k" using False le by (simp_all add: k_def)
      have "map_of d (N + 1 + k) = Some (mo + 1 + k)" using dd(4) k(1) by blast
      then have "y = mo + 1 + k" using dk k(2) by simp
      then show ?thesis using k(1) by blast
    qed
  qed
  have S_iff: "v \<in> S \<longleftrightarrow> (\<exists>i < ?n. ?L ! i = v \<and> ?Ls ! i \<noteq> main ! (?Lc ! i))" for v
  proof
    assume "v \<in> S"
    then obtain y where y: "(y, v) \<in> set minimal" unfolding S_def by force
    then have ymo: "y > mo" and mem: "(y, v) \<in> set ows2o" by (simp_all add: minimal_def)
    have yv: "map_of ows2o y = Some v" using mem dk_ows by simp
    have "\<not> y \<in> insert 0 (set ?L)" using le_mo[of y] ymo by auto
    then obtain k where k: "k < M" "y = mo + 1 + k" using ows_dom[OF yv] by blast
    obtain i where i: "i < ?n" "?Ls ! i = nonmain ! k" "?Ls ! i \<noteq> main ! (?Lc ! i)"
      using nm_mem[OF k(1)] by blast
    have "map_of ows2o (mo + 1 + k) = Some (?L ! i)" using i(1) k(1) i(2) by (rule ows_new)
    then have "v = ?L ! i" using yv k(2) by simp
    then show "\<exists>i < ?n. ?L ! i = v \<and> ?Ls ! i \<noteq> main ! (?Lc ! i)" using i by blast
  next
    assume "\<exists>i < ?n. ?L ! i = v \<and> ?Ls ! i \<noteq> main ! (?Lc ! i)"
    then obtain i where i: "i < ?n" "?L ! i = v" "?Ls ! i \<noteq> main ! (?Lc ! i)" by blast
    obtain k where k: "k < M" "?Ls ! i = nonmain ! k" using cls[OF i(1)] i(3) by blast
    have "map_of ows2o (mo + 1 + k) = Some (?L ! i)" using i(1) k by (rule ows_new)
    then have "(mo + 1 + k, v) \<in> set ows2o" using i(2) by (simp add: map_of_SomeD)
    then have "(mo + 1 + k, v) \<in> set minimal" by (simp add: minimal_def)
    then show "v \<in> S" unfolding S_def by force
  qed
  have n2o_new: "map_of n2o (mo + 1 + k) = Some (?L ! i)"
    if i: "i < ?n" and k: "k < M" and eq: "?Ls ! i = nonmain ! k" for i k
  proof -
    have 1: "map_of ows2o (mo + 1 + k) = Some (?L ! i)" using i k eq by (rule ows_new)
    have "?Ls ! i \<noteq> main ! (?Lc ! i)" using i k eq by (rule nm_not_main)
    then have "?L ! i \<in> S" using S_iff i by blast
    then show ?thesis using 1 by (simp add: n2o_map)
  qed
  have Pa: "\<forall>i < ?n. ?Ls ! i = main ! (?Lc ! i) \<longrightarrow> data Lnew ! i = ?L ! i"
  proof (intro allI impI)
    fix i assume i: "i < ?n" and a: "?Ls ! i = main ! (?Lc ! i)"
    have c: "?Lc ! i \<le> N" using consr[OF Zi[OF i]] .
    then have "map_of s2n (?Ls ! i) = Some (?Lc ! i)" using s2n_main a by simp
    then have "data Lnew ! i = the (map_of d (?Lc ! i))" using i by (intro Lnew_nth)
    also have "\<dots> = the (map_of c2o (?Lc ! i))" using dd(3) c by simp
    also have "\<dots> = ?L ! i" using c2o_nth[OF i] by simp
    finally show "data Lnew ! i = ?L ! i" .
  qed
  have Pb: "\<forall>i < ?n. \<forall>k < length nonmain. ?Ls ! i = nonmain ! k
              \<longrightarrow> data Lnew ! i = mo + 1 + k \<and> map_of n2o (mo + 1 + k) = Some (?L ! i)"
  proof (intro allI impI)
    fix i k assume i: "i < ?n" and k: "k < length nonmain" and eq: "?Ls ! i = nonmain ! k"
    have kM: "k < M" using k by (simp add: M_def)
    have "map_of s2n (?Ls ! i) = Some (N + 1 + k)" using s2n_nm k eq by simp
    then have "data Lnew ! i = the (map_of d (N + 1 + k))" using i by (intro Lnew_nth)
    also have "\<dots> = mo + 1 + k" using dd(4) kM by simp
    finally show "data Lnew ! i = mo + 1 + k \<and> map_of n2o (mo + 1 + k) = Some (?L ! i)"
      using n2o_new[OF i kM eq] by simp
  qed
  have Pc: "\<forall>y v. map_of n2o y = Some v \<longleftrightarrow>
           ((y = v \<and> (\<exists>i < ?n. ?L ! i = v \<and> ?Ls ! i \<noteq> main ! (?Lc ! i)))
          \<or> (\<exists>i < ?n. \<exists>k < length nonmain. ?Ls ! i = nonmain ! k \<and> y = mo + 1 + k \<and> v = ?L ! i))"
  proof (intro allI iffI)
    fix y v assume "map_of n2o y = Some v"
    then have yv: "map_of ows2o y = Some v" and vS: "v \<in> S" by (simp_all add: n2o_map)
    show "(y = v \<and> (\<exists>i < ?n. ?L ! i = v \<and> ?Ls ! i \<noteq> main ! (?Lc ! i)))
          \<or> (\<exists>i < ?n. \<exists>k < length nonmain. ?Ls ! i = nonmain ! k \<and> y = mo + 1 + k \<and> v = ?L ! i)"
      using ows_dom[OF yv]
    proof
      assume "y \<in> insert 0 (set ?L) \<and> v = y"
      then show ?thesis using vS S_iff by blast
    next
      assume "\<exists>k < M. y = mo + 1 + k"
      then obtain k where k: "k < M" "y = mo + 1 + k" by blast
      obtain i where i: "i < ?n" "?Ls ! i = nonmain ! k" using nm_mem[OF k(1)] by blast
      have "map_of ows2o (mo + 1 + k) = Some (?L ! i)" using i(1) k(1) i(2) by (rule ows_new)
      then have "v = ?L ! i" using yv k(2) by simp
      then show ?thesis using i k M_def by blast
    qed
  next
    fix y v
    assume "(y = v \<and> (\<exists>i < ?n. ?L ! i = v \<and> ?Ls ! i \<noteq> main ! (?Lc ! i)))
          \<or> (\<exists>i < ?n. \<exists>k < length nonmain. ?Ls ! i = nonmain ! k \<and> y = mo + 1 + k \<and> v = ?L ! i)"
    then show "map_of n2o y = Some v"
    proof
      assume a: "y = v \<and> (\<exists>i < ?n. ?L ! i = v \<and> ?Ls ! i \<noteq> main ! (?Lc ! i))"
      then have vS: "v \<in> S" using S_iff by blast
      have "v \<in> insert 0 (set ?L)" using a by auto
      then have "map_of ows2o v = Some v" by (rule ows_orig)
      then show ?thesis using a vS by (simp add: n2o_map)
    next
      assume "\<exists>i < ?n. \<exists>k < length nonmain. ?Ls ! i = nonmain ! k \<and> y = mo + 1 + k \<and> v = ?L ! i"
      then obtain i k where ik: "i < ?n" "k < length nonmain" "?Ls ! i = nonmain ! k"
          "y = mo + 1 + k" "v = ?L ! i" by blast
      have kM: "k < M" using ik(2) by (simp add: M_def)
      show ?thesis using n2o_new[OF ik(1) kM ik(3)] ik(4,5) by simp
    qed
  qed
  have Pd: "distinct (map fst n2o)"
    unfolding n2o_def foldl_cond_update using distinct_dict_of by (rule distinct_dict_update)
  show ?thesis
    by (rule exI[of _ main], rule exI[of _ nonmain], rule exI[of _ Lnew], rule exI[of _ n2o],
        intro conjI)
       (fact run Lnew_sh lenm m0 am dnm setnm Pa Pb Pc Pd)+
qed

lemma split_disconnected_bodies_empty:
  assumes "data A = []"
  shows "split_disconnected_bodies cc A \<noteq> Inr r"
proof -
  have rc: "relabelConsecutive A = (A, 0, [(0, 0)])"
    using assms by (simp add: relabelConsecutive_def)
  have rev: "reverse_dict [(0, 0)] = Inr [(0, 0)]"
    by (simp add: reverse_dict_def dict_of_def dict_update_def)
  have ct: "\<exists>e. contingency_table A B True = Inl e" for B
    using assms by (simp add: contingency_table_def reshape_flat_def Let_def)
  have "\<exists>e. split_body_mappings A B = Inl e" for B
    using ct[of B] by (auto simp: split_body_mappings_def bind_def)
  then obtain e where "split_body_mappings A (cc A) = Inl e" by blast
  then have "split_disconnected_bodies cc A = Inl e"
    unfolding split_disconnected_bodies_def
    by (simp only: rc prod.case Let_def rev bind_def sum.case)
  then show ?thesis by simp
qed

lemma split_disconnected_bodies_result:
  assumes cc: "component_labelling cc (fst (relabelConsecutive A))"
    and ret: "split_disconnected_bodies cc A = Inr (Lnew, n2o)"
  shows "shape Lnew = shape A" and "length (data Lnew) = length (data A)"
    and "\<forall>i < length (data A). apply_map n2o (data Lnew ! i) = data A ! i"
    and "\<forall>i < length (data A). data A ! i = 0 \<longrightarrow> data Lnew ! i = 0"
    and "0 \<notin> fst ` set n2o" and "0 \<notin> snd ` set n2o"
proof -
  obtain Ac N o2c where rc: "relabelConsecutive A = (Ac, N, o2c)"
    by (cases "relabelConsecutive A")
  define As where "As = cc Ac"
  define mo where "mo = Max (insert 0 (set (data A)))"
  let ?Lc = "data Ac" and ?Ls = "data As" and ?L = "data A"
  let ?Z = "set (zip ?Lc ?Ls)"
  let ?n = "length ?L"
  note rs = relabelConsecutive_spec[OF rc]
  note rm = relabelConsecutive_maps[OF rc]
  have sh: "shape As = shape A" and lab: "split_labelling ?Lc ?Ls"
    using cc rs(6) by (simp_all add: component_labelling_def rc As_def)
  have ne: "?L \<noteq> []" using ret split_disconnected_bodies_empty[of A cc] by blast
  from split_disconnected_bodies_spec[where cc = cc, OF rc As_def[symmetric] sh lab ne mo_def]
  obtain main nonmain Lnew' n2o' where
        run: "split_disconnected_bodies cc A = Inr (Lnew', n2o')"
    and shn: "shape Lnew' = shape A" and lenn: "length (data Lnew') = ?n"
    and lenm: "length main = N + 1" and m0: "main ! 0 = 0"
    and am: "\<forall>c \<le> N. is_argmax (\<lambda>s. count_list (zip ?Lc ?Ls) (c, s)) (Max (set ?Ls) + 1) (main ! c)"
    and dnm: "distinct nonmain"
    and setnm: "set nonmain = {s. \<exists>c. (c, s) \<in> ?Z \<and> s \<noteq> main ! c}"
    and Pa: "\<forall>i < ?n. ?Ls ! i = main ! (?Lc ! i) \<longrightarrow> data Lnew' ! i = ?L ! i"
    and Pb: "\<forall>i < ?n. \<forall>k < length nonmain. ?Ls ! i = nonmain ! k
              \<longrightarrow> data Lnew' ! i = mo + 1 + k \<and> map_of n2o' (mo + 1 + k) = Some (?L ! i)"
    and Pc: "\<forall>y v. map_of n2o' y = Some v \<longleftrightarrow>
           ((y = v \<and> (\<exists>i < ?n. ?L ! i = v \<and> ?Ls ! i \<noteq> main ! (?Lc ! i)))
          \<or> (\<exists>i < ?n. \<exists>k < length nonmain. ?Ls ! i = nonmain ! k \<and> y = mo + 1 + k \<and> v = ?L ! i))"
    and Pd: "distinct (map fst n2o')"
    by (elim exE conjE) (rule that, assumption+)
  have eq: "Lnew' = Lnew" "n2o' = n2o" using run ret by simp_all
  have lenc: "length ?Lc = ?n" by (rule rm(8))
  have lensplit: "length ?Ls = ?n" using split_labelling_pairs(1)[OF lab] lenc by simp
  have Zi: "(?Lc ! i, ?Ls ! i) \<in> ?Z" if "i < ?n" for i
    using that lenc lensplit by (auto simp: in_set_zip)
  have le_mo: "?L ! i \<le> mo" if "i < ?n" for i
    unfolding mo_def using that by (intro Max_ge) simp_all
  have zero: "?Ls ! i = main ! (?Lc ! i)" if i: "i < ?n" and z: "?L ! i = 0" for i
  proof -
    have "map_of o2c 0 = Some (?Lc ! i)" using rm(7)[OF i] z by simp
    then have c0: "?Lc ! i = 0" using rm(2) by simp
    have "(?Ls ! i = 0) = (?Lc ! i = 0)" using Zi[OF i] by (rule split_labelling_pairs(2)[OF lab])
    then show ?thesis using c0 m0 by simp
  qed
  have cls: "?Ls ! i = main ! (?Lc ! i) \<or> (\<exists>k < length nonmain. ?Ls ! i = nonmain ! k)"
    if i: "i < ?n" for i
  proof (cases "?Ls ! i = main ! (?Lc ! i)")
    case True then show ?thesis by simp
  next
    case False
    then have "?Ls ! i \<in> set nonmain" using Zi[OF i] setnm by blast
    then show ?thesis by (auto simp: in_set_conv_nth)
  qed
  show "shape Lnew = shape A" using shn eq by simp
  show "length (data Lnew) = ?n" using lenn eq by simp
  show "\<forall>i < ?n. apply_map n2o (data Lnew ! i) = ?L ! i"
  proof (intro allI impI)
    fix i assume i: "i < ?n"
    show "apply_map n2o (data Lnew ! i) = ?L ! i" using cls[OF i]
    proof
      assume a: "?Ls ! i = main ! (?Lc ! i)"
      then have l: "data Lnew' ! i = ?L ! i" using Pa i by blast
      show ?thesis
      proof (cases "map_of n2o' (?L ! i)")
        case None
        then show ?thesis using l eq by (simp add: apply_map_def)
      next
        case (Some v)
        then have "(?L ! i = v \<and> (\<exists>j < ?n. ?L ! j = v \<and> ?Ls ! j \<noteq> main ! (?Lc ! j)))
          \<or> (\<exists>j < ?n. \<exists>k < length nonmain. ?Ls ! j = nonmain ! k \<and> ?L ! i = mo + 1 + k \<and> v = ?L ! j)"
          using Pc by blast
        then have "v = ?L ! i" using le_mo[OF i] by auto
        then show ?thesis using Some l eq by (simp add: apply_map_def)
      qed
    next
      assume "\<exists>k < length nonmain. ?Ls ! i = nonmain ! k"
      then obtain k where k: "k < length nonmain" "?Ls ! i = nonmain ! k" by blast
      have "data Lnew' ! i = mo + 1 + k \<and> map_of n2o' (mo + 1 + k) = Some (?L ! i)"
        using Pb i k by blast
      then show ?thesis using eq by (simp add: apply_map_def)
    qed
  qed
  show "\<forall>i < ?n. ?L ! i = 0 \<longrightarrow> data Lnew ! i = 0"
  proof (intro allI impI)
    fix i assume i: "i < ?n" and z: "?L ! i = 0"
    have "data Lnew' ! i = ?L ! i" using Pa i zero[OF i z] by blast
    then show "data Lnew ! i = 0" using z eq by simp
  qed
  have nokey: "map_of n2o' 0 \<noteq> Some v" for v
  proof
    assume "map_of n2o' 0 = Some v"
    then have "(0 = v \<and> (\<exists>i < ?n. ?L ! i = v \<and> ?Ls ! i \<noteq> main ! (?Lc ! i)))
          \<or> (\<exists>i < ?n. \<exists>k < length nonmain. ?Ls ! i = nonmain ! k \<and> 0 = mo + 1 + k \<and> v = ?L ! i)"
      using Pc by blast
    then obtain i where "i < ?n" "?L ! i = 0" "?Ls ! i \<noteq> main ! (?Lc ! i)" by auto
    then show False using zero by blast
  qed
  have noval: "map_of n2o' y \<noteq> Some 0" for y
  proof
    assume "map_of n2o' y = Some 0"
    then have "(y = 0 \<and> (\<exists>i < ?n. ?L ! i = 0 \<and> ?Ls ! i \<noteq> main ! (?Lc ! i)))
          \<or> (\<exists>i < ?n. \<exists>k < length nonmain. ?Ls ! i = nonmain ! k \<and> y = mo + 1 + k \<and> 0 = ?L ! i)"
      using Pc by blast
    then show False
    proof
      assume "y = 0 \<and> (\<exists>i < ?n. ?L ! i = 0 \<and> ?Ls ! i \<noteq> main ! (?Lc ! i))"
      then show False using zero by blast
    next
      assume "\<exists>i < ?n. \<exists>k < length nonmain. ?Ls ! i = nonmain ! k \<and> y = mo + 1 + k \<and> 0 = ?L ! i"
      then obtain i k where ik: "i < ?n" "k < length nonmain" "?Ls ! i = nonmain ! k" "?L ! i = 0"
        by auto
      have "nonmain ! k \<in> set nonmain" using ik(2) by simp
      then obtain c where c: "(c, nonmain ! k) \<in> ?Z" "nonmain ! k \<noteq> main ! c" using setnm by blast
      have "(?Lc ! i, nonmain ! k) \<in> ?Z" using Zi[OF ik(1)] ik(3) by simp
      then have "c = ?Lc ! i" using c(1) by (intro split_labelling_pairs(3)[OF lab])
      then show False using c(2) zero[OF ik(1) ik(4)] ik(3) by simp
    qed
  qed
  show "0 \<notin> fst ` set n2o"
  proof
    assume "0 \<in> fst ` set n2o"
    then obtain v where v: "map_of n2o' 0 = Some v"
      using eq by (cases "map_of n2o' 0") (auto simp: map_of_eq_None_iff)
    show False using nokey[of v] v by simp
  qed
  show "0 \<notin> snd ` set n2o"
  proof
    assume "0 \<in> snd ` set n2o"
    then obtain y where "(y, 0) \<in> set n2o'" using eq by force
    then have y: "map_of n2o' y = Some 0" using Pd by simp
    show False using noval[of y] y by simp
  qed
qed

end
